theory Spec2Isabelle
  imports Main "HOL-Library.Word"
begin

unbundle bit_operations_syntax

section \<open>JavaScript values\<close>

text \<open>
  A \<^verbatim>\<open>Buffer\<close> or \<^verbatim>\<open>Uint8Array\<close> is a list of bytes. A JavaScript string is a
  list of UTF-16 code units, so that a lone surrogate is a value of the type, as it is in
  the language. A promise that rejects and a function that throws are both the left
  summand of \<open>error + 'a\<close>.
\<close>

type_synonym byte = "8 word"
type_synonym buffer = "byte list"
type_synonym jsstring = "16 word list"

definition js :: "string \<Rightarrow> jsstring" where
  "js s = map of_char s"

datatype error = Error string | TypeError string | RangeError string

definition await :: "'e + 'a \<Rightarrow> ('a \<Rightarrow> 'e + 'b) \<Rightarrow> 'e + 'b" where
  "await p k = (case p of Inl e \<Rightarrow> Inl e | Inr x \<Rightarrow> k x)"

section \<open>Platform encodings: base64 and UTF-8\<close>

text \<open>
  \<^verbatim>\<open>buf.toString('base64')\<close>: three bytes make four characters of the standard
  alphabet, a rest of one or two bytes is padded with \<^verbatim>\<open>=\<close>.
\<close>

definition b64char :: "nat \<Rightarrow> 16 word" where
  "b64char n =
     (if n < 26 then of_nat (65 + n)
      else if n < 52 then of_nat (71 + n)
      else if n < 62 then of_nat (n - 4)
      else if n = 62 then 43
      else 47)"

definition b64pad :: "16 word" where
  "b64pad = 61"

fun toString_base64 :: "buffer \<Rightarrow> jsstring" where
  "toString_base64 (a # b # c # rest) =
     (let n = (unat a * 256 + unat b) * 256 + unat c
      in [b64char (n div 64 div 64 div 64), b64char (n div 64 div 64 mod 64),
          b64char (n div 64 mod 64), b64char (n mod 64)]) @ toString_base64 rest"
| "toString_base64 [a, b] =
     (let n = (unat a * 256 + unat b) * 4
      in [b64char (n div 64 div 64), b64char (n div 64 mod 64), b64char (n mod 64), b64pad])"
| "toString_base64 [a] =
     (let n = unat a * 16
      in [b64char (n div 64), b64char (n mod 64), b64pad, b64pad])"
| "toString_base64 [] = []"

text \<open>
  \<^verbatim>\<open>Buffer.from(s, 'base64')\<close>: decoding stops at the first \<^verbatim>\<open>=\<close>, characters
  outside the alphabet are skipped (the URL-safe \<^verbatim>\<open>-\<close> and \<^verbatim>\<open>_\<close> are accepted),
  four characters make three bytes, a rest of three or two characters makes two bytes or
  one, and a rest of a single character is dropped. Every call decodes its argument on
  its own: nothing is carried over from one string to the next.
\<close>

definition unbase64 :: "16 word \<Rightarrow> nat option" where
  "unbase64 c =
     (let v = unat c
      in if 65 \<le> v \<and> v \<le> 90 then Some (v - 65)
         else if 97 \<le> v \<and> v \<le> 122 then Some (v - 71)
         else if 48 \<le> v \<and> v \<le> 57 then Some (v + 4)
         else if v = 43 \<or> v = 45 then Some 62
         else if v = 47 \<or> v = 95 then Some 63
         else None)"

fun decode_sextets :: "nat list \<Rightarrow> buffer" where
  "decode_sextets (a # b # c # d # rest) =
     (let n = ((a * 64 + b) * 64 + c) * 64 + d
      in [of_nat (n div 256 div 256), of_nat (n div 256 mod 256), of_nat (n mod 256)])
     @ decode_sextets rest"
| "decode_sextets [a, b, c] =
     (let n = ((a * 64 + b) * 64 + c) div 4
      in [of_nat (n div 256), of_nat (n mod 256)])"
| "decode_sextets [a, b] = [of_nat ((a * 64 + b) div 16)]"
| "decode_sextets _ = []"

definition Buffer_from_base64 :: "jsstring \<Rightarrow> buffer" where
  "Buffer_from_base64 s =
     decode_sextets (List.map_filter unbase64 (takeWhile (\<lambda>c. c \<noteq> b64pad) s))"

text \<open>
  \<^verbatim>\<open>new TextEncoder().encode(s)\<close> and \<^verbatim>\<open>Buffer.from(s, 'utf8')\<close>: a surrogate pair
  is one code point of four bytes, a surrogate without its partner is encoded as U+FFFD.
\<close>

definition is_high_surrogate :: "16 word \<Rightarrow> bool" where
  "is_high_surrogate u \<longleftrightarrow> 0xD800 \<le> unat u \<and> unat u \<le> 0xDBFF"

definition is_low_surrogate :: "16 word \<Rightarrow> bool" where
  "is_low_surrogate u \<longleftrightarrow> 0xDC00 \<le> unat u \<and> unat u \<le> 0xDFFF"

definition utf8_bytes :: "nat \<Rightarrow> buffer" where
  "utf8_bytes cp =
     (if cp < 0x80 then [of_nat cp]
      else if cp < 0x800 then [of_nat (0xC0 + cp div 64), of_nat (0x80 + cp mod 64)]
      else if cp < 0x10000 then
        [of_nat (0xE0 + cp div 64 div 64), of_nat (0x80 + cp div 64 mod 64),
         of_nat (0x80 + cp mod 64)]
      else
        [of_nat (0xF0 + cp div 64 div 64 div 64), of_nat (0x80 + cp div 64 div 64 mod 64),
         of_nat (0x80 + cp div 64 mod 64), of_nat (0x80 + cp mod 64)])"

definition code_point :: "16 word \<Rightarrow> 16 word \<Rightarrow> nat" where
  "code_point hi lo = 0x10000 + (unat hi - 0xD800) * 0x400 + (unat lo - 0xDC00)"

definition unit_bytes :: "16 word \<Rightarrow> buffer" where
  "unit_bytes u =
     (if is_high_surrogate u \<or> is_low_surrogate u then utf8_bytes 0xFFFD
      else utf8_bytes (unat u))"

fun utf8_encode :: "jsstring \<Rightarrow> buffer" where
  "utf8_encode [] = []"
| "utf8_encode [u] = unit_bytes u"
| "utf8_encode (u # l # us) =
     (if is_high_surrogate u \<and> is_low_surrogate l
      then utf8_bytes (code_point u l) @ utf8_encode us
      else unit_bytes u @ utf8_encode (l # us))"

section \<open>Key derivation\<close>

subsection \<open>The native provider (react-native-quick-crypto)\<close>

text \<open>
  The provider is a parameter: every capability may be absent (the code tests each one
  before use) and every call may throw. A cipher object is a value of type \<open>'c\<close>;
  \<^verbatim>\<open>cipher.update(data, inputEncoding, outputEncoding)\<close> and
  \<^verbatim>\<open>cipher.final(outputEncoding)\<close> return their output and the object's next state.
\<close>

datatype encoding = Utf8 | Base64

record 'c quick_crypto =
  pbkdf2Sync :: "(jsstring \<Rightarrow> buffer \<Rightarrow> nat \<Rightarrow> nat \<Rightarrow> string \<Rightarrow> error + buffer) option"
  createCipheriv :: "(string \<Rightarrow> buffer \<Rightarrow> buffer \<Rightarrow> error + 'c) option"
  createDecipheriv :: "(string \<Rightarrow> buffer \<Rightarrow> buffer \<Rightarrow> error + 'c) option"
  update :: "'c \<Rightarrow> jsstring \<Rightarrow> encoding \<Rightarrow> encoding \<Rightarrow> error + (jsstring \<times> 'c)"
  final :: "'c \<Rightarrow> encoding \<Rightarrow> error + (jsstring \<times> 'c)"

definition alg :: string where
  "alg = ''aes-256-cbc''"

definition defaultIterations :: nat where
  "defaultIterations = 100000"

definition bytesize :: nat where
  "bytesize = 32"

definition nativeGenerateKey ::
  "'c quick_crypto \<Rightarrow> jsstring \<Rightarrow> jsstring \<Rightarrow> error + jsstring" where
  "nativeGenerateKey QuickCrypto password ivv =
     (case pbkdf2Sync QuickCrypto of
        None \<Rightarrow> Inl (Error ''nativeCrypto.pbkdf2Sync is not supported'')
      | Some pbkdf2 \<Rightarrow>
          (let decodedSalt = Buffer_from_base64 ivv
           in await (pbkdf2 password decodedSalt defaultIterations bytesize ''sha256'')
                (\<lambda>result. Inr (toString_base64 result))))"

definition nativeGenerateHash ::
  "'c quick_crypto \<Rightarrow> jsstring \<Rightarrow> jsstring \<Rightarrow> error + jsstring" where
  "nativeGenerateHash QuickCrypto password ivv =
     await (nativeGenerateKey QuickCrypto password ivv)
       (\<lambda>key. nativeGenerateKey QuickCrypto key ivv)"

subsection \<open>The browser provider (Web Crypto)\<close>

record pbkdf2_params =
  p_name :: string
  p_salt :: buffer
  p_iterations :: nat
  p_hash :: string

record 'k subtle_crypto =
  importKey :: "(string \<Rightarrow> buffer \<Rightarrow> string \<Rightarrow> bool \<Rightarrow> string list \<Rightarrow> error + 'k) option"
  deriveBits :: "(pbkdf2_params \<Rightarrow> 'k \<Rightarrow> nat \<Rightarrow> error + buffer) option"

record 'k web_crypto =
  subtle :: "'k subtle_crypto option"

text \<open>\<^verbatim>\<open>crypto.subtle?.importKey\<close>: absent when either part is.\<close>

definition subtle_importKey ::
  "'k web_crypto \<Rightarrow> ('k subtle_crypto \<times>
     (string \<Rightarrow> buffer \<Rightarrow> string \<Rightarrow> bool \<Rightarrow> string list \<Rightarrow> error + 'k)) option" where
  "subtle_importKey crypto =
     (case subtle crypto of
        None \<Rightarrow> None
      | Some s \<Rightarrow> (case importKey s of None \<Rightarrow> None | Some f \<Rightarrow> Some (s, f)))"

definition call_deriveBits ::
  "'k subtle_crypto \<Rightarrow> pbkdf2_params \<Rightarrow> 'k \<Rightarrow> nat \<Rightarrow> error + buffer" where
  "call_deriveBits s params k len =
     (case deriveBits s of
        None \<Rightarrow> Inl (TypeError ''crypto.subtle.deriveBits is not a function'')
      | Some f \<Rightarrow> f params k len)"

text \<open>\<^verbatim>\<open>src/browser.ts\<close> of the package (\<^verbatim>\<open>src/src/browser.ts\<close> here).\<close>

definition browserGenerateKey ::
  "'k web_crypto \<Rightarrow> jsstring \<Rightarrow> jsstring \<Rightarrow> error + jsstring" where
  "browserGenerateKey crypto password ivv =
     (case subtle_importKey crypto of
        None \<Rightarrow> Inl (Error ''browserCrypto.subtle.importKey is not supported'')
      | Some (s, importKey_fn) \<Rightarrow>
          (let iterations = 100000;
               bytesize = 32;
               keyData = utf8_encode password
           in await (importKey_fn ''raw'' keyData ''PBKDF2'' False [''deriveBits'', ''deriveKey''])
                (\<lambda>importedKey.
                   await (call_deriveBits s
                            \<lparr>p_name = ''PBKDF2'', p_salt = Buffer_from_base64 ivv,
                             p_iterations = iterations, p_hash = ''SHA-256''\<rparr>
                            importedKey (bytesize * 8))
                     (\<lambda>derivedBits. Inr (toString_base64 derivedBits)))))"

definition browserGenerateHash ::
  "'k web_crypto \<Rightarrow> jsstring \<Rightarrow> jsstring \<Rightarrow> error + jsstring" where
  "browserGenerateHash crypto password ivv =
     await (browserGenerateKey crypto password ivv)
       (\<lambda>key. await (browserGenerateKey crypto key ivv) (\<lambda>result. Inr result))"


definition digit_char :: "nat \<Rightarrow> 16 word" where
  "digit_char d = of_nat (48 + d)"

definition byte_decimal :: "byte \<Rightarrow> jsstring" where
  "byte_decimal b =
     (let n = unat b
      in if n < 10 then [digit_char n]
         else if n < 100 then [digit_char (n div 10), digit_char (n mod 10)]
         else [digit_char (n div 100), digit_char (n div 10 mod 10), digit_char (n mod 10)])"





section \<open>Text cipher\<close>

text \<open>
  \<^verbatim>\<open>nativeEncryptText\<close> and \<^verbatim>\<open>nativeDecryptText\<close>: the \<^verbatim>\<open>catch\<close> logs and
  rethrows, so the error of the failing call is the error of the function.
\<close>

definition nativeEncryptText ::
  "'c quick_crypto \<Rightarrow> jsstring \<Rightarrow> jsstring \<Rightarrow> jsstring \<Rightarrow> error + jsstring" where
  "nativeEncryptText QuickCrypto key ivv text =
     (case createCipheriv QuickCrypto of
        None \<Rightarrow> Inl (Error ''nativeCrypto.createCipheriv is not supported'')
      | Some create \<Rightarrow>
          await (create alg (Buffer_from_base64 key) (Buffer_from_base64 ivv))
            (\<lambda>cipher.
               await (update QuickCrypto cipher text Utf8 Base64)
                 (\<lambda>(encrypted, cipher1).
                    await (final QuickCrypto cipher1 Base64)
                      (\<lambda>(fin, cipher2). Inr (encrypted @ fin)))))"

definition nativeDecryptText ::
  "'c quick_crypto \<Rightarrow> jsstring \<Rightarrow> jsstring \<Rightarrow> jsstring \<Rightarrow> error + jsstring" where
  "nativeDecryptText QuickCrypto key ivv text =
     (case createDecipheriv QuickCrypto of
        None \<Rightarrow> Inl (Error ''nativeCrypto.createDecipheriv is not supported'')
      | Some create \<Rightarrow>
          await (create ''aes-256-cbc'' (Buffer_from_base64 key) (Buffer_from_base64 ivv))
            (\<lambda>cipher.
               await (update QuickCrypto cipher text Base64 Utf8)
                 (\<lambda>(decrypted, cipher1).
                    await (final QuickCrypto cipher1 Utf8)
                      (\<lambda>(fin, cipher2). Inr (decrypted @ fin)))))"

section \<open>Stream cipher\<close>

subsection \<open>Endpoints\<close>

text \<open>
  A source endpoint has the fields the operations assign and the events it delivers once
  opened, as a function of its configuration then. A sink endpoint has the two fields the
  operations assign, what it holds, and its two methods \<^verbatim>\<open>write\<close> and \<^verbatim>\<open>close\<close>;
  each returns a promise, which may reject. \<^verbatim>\<open>write\<close> sees the encoding the sink has
  when it is called.
\<close>

datatype event = OnData jsstring | OnEnd | OnError error

record read_stream =
  rs_encoding :: encoding
  rs_bufferSize :: "nat option"
  rs_open :: "encoding \<Rightarrow> nat option \<Rightarrow> event list"

record 'w write_stream =
  ws_encoding :: encoding
  ws_append :: bool
  ws_data :: 'w
  ws_write :: "encoding \<Rightarrow> 'w \<Rightarrow> jsstring \<Rightarrow> error + 'w"
  ws_close :: "'w \<Rightarrow> error + 'w"

subsection \<open>The operation as a run of handlers\<close>

text \<open>
  The promise settles once: a later \<^verbatim>\<open>resolve\<close> or \<^verbatim>\<open>reject\<close> changes nothing.
  The trace lists the calls the operation makes, in the order it makes them. An
  exception inside an \<^verbatim>\<open>async\<close> handler, or a rejection of a promise it awaits,
  rejects that handler's own promise, which nobody awaits: the handler stops there and
  the operation's promise is left as it was.

  A source delivers data chunks and then one terminal signal, end or error. What a
  handler does after an \<^verbatim>\<open>await\<close> runs once the source's synchronous delivery is
  over; the calls to the cipher and the first call to the sink are made in the order of
  the events, and after the terminal signal no other handler runs, so each handler is
  one step of the run.
\<close>

datatype outcome = Pending | Resolved | Rejected error

datatype action =
    CipherUpdate jsstring encoding encoding
  | CipherFinal encoding
  | SinkWrite jsstring
  | SinkClose
  | Resolve
  | Reject error
  | ConsoleError error

record 'w run =
  source :: read_stream
  sink :: "'w write_stream"
  promise :: outcome
  trace :: "action list"

definition did :: "action \<Rightarrow> 'w run \<Rightarrow> 'w run" where
  "did a r = r\<lparr>trace := trace r @ [a]\<rparr>"

definition resolve :: "'w run \<Rightarrow> 'w run" where
  "resolve r = did Resolve (r\<lparr>promise := (if promise r = Pending then Resolved else promise r)\<rparr>)"

definition reject :: "error \<Rightarrow> 'w run \<Rightarrow> 'w run" where
  "reject e r =
     did (Reject e) (r\<lparr>promise := (if promise r = Pending then Rejected e else promise r)\<rparr>)"

text \<open>
  \<^verbatim>\<open>await outputStream.write(data)\<close> and \<^verbatim>\<open>await outputStream.close()\<close>: the call
  is made, and the handler goes on only if the promise resolves. On rejection the value
  carries the run as it is when the handler stops.
\<close>

definition sink_write :: "jsstring \<Rightarrow> 'w run \<Rightarrow> (error \<times> 'w run) + 'w run" where
  "sink_write data r =
     (let r1 = did (SinkWrite data) r
      in case ws_write (sink r) (ws_encoding (sink r)) (ws_data (sink r)) data of
           Inl e \<Rightarrow> Inl (e, r1)
         | Inr d \<Rightarrow> Inr (r1\<lparr>sink := (sink r)\<lparr>ws_data := d\<rparr>\<rparr>))"

definition sink_close :: "'w run \<Rightarrow> (error \<times> 'w run) + 'w run" where
  "sink_close r =
     (let r1 = did SinkClose r
      in case ws_close (sink r) (ws_data (sink r)) of
           Inl e \<Rightarrow> Inl (e, r1)
         | Inr d \<Rightarrow> Inr (r1\<lparr>sink := (sink r)\<lparr>ws_data := d\<rparr>\<rparr>))"

text \<open>The run a handler leaves, whether it ran to its end or stopped at a rejection.\<close>

definition handler_result :: "(error \<times> 'w run) + 'w run \<Rightarrow> 'w run" where
  "handler_result p = (case p of Inl (e, r) \<Rightarrow> r | Inr r \<Rightarrow> r)"

text \<open>\<^verbatim>\<open>bufferSize ? bufferSize : inputStream.bufferSize\<close>: zero counts as absent.\<close>

definition config_bufferSize :: "nat option \<Rightarrow> nat option \<Rightarrow> nat option" where
  "config_bufferSize bufferSize current =
     (case bufferSize of
        None \<Rightarrow> current
      | Some n \<Rightarrow> if n \<noteq> 0 then Some n else current)"

subsection \<open>nativeEncryptStream\<close>

definition encrypt_init ::
  "'c quick_crypto \<Rightarrow> jsstring \<Rightarrow> jsstring \<Rightarrow> read_stream \<Rightarrow> 'w write_stream \<Rightarrow> nat option
     \<Rightarrow> error + ('c \<times> 'w run)" where
  "encrypt_init QuickCrypto key ivv inputStream outputStream bufferSize =
     (case createCipheriv QuickCrypto of
        None \<Rightarrow> Inl (Error ''nativeCrypto.createCipheriv is not supported'')
      | Some create \<Rightarrow>
          await (create alg (Buffer_from_base64 key) (Buffer_from_base64 ivv))
            (\<lambda>cipher.
               Inr (cipher,
                    \<lparr>source = inputStream
                       \<lparr>rs_bufferSize := config_bufferSize bufferSize (rs_bufferSize inputStream),
                        rs_encoding := Base64\<rparr>,
                     sink = outputStream\<lparr>ws_encoding := Utf8, ws_append := False\<rparr>,
                     promise = Pending,
                     trace = []\<rparr>)))"

definition encrypt_onData ::
  "'c quick_crypto \<Rightarrow> 'c \<times> 'w run \<Rightarrow> jsstring \<Rightarrow> 'c \<times> 'w run" where
  "encrypt_onData QuickCrypto st chunk =
     (case st of (cipher, r) \<Rightarrow>
        (case update QuickCrypto cipher chunk Utf8 Base64 of
           Inl e \<Rightarrow> (cipher, did (CipherUpdate chunk Utf8 Base64) r)
         | Inr (encryptedChunk, cipher1) \<Rightarrow>
             (cipher1,
              handler_result
                (sink_write encryptedChunk (did (CipherUpdate chunk Utf8 Base64) r)))))"

definition encrypt_onEnd :: "'c quick_crypto \<Rightarrow> 'c \<times> 'w run \<Rightarrow> 'c \<times> 'w run" where
  "encrypt_onEnd QuickCrypto st =
     (case st of (cipher, r) \<Rightarrow>
        (case final QuickCrypto cipher Base64 of
           Inl e \<Rightarrow> (cipher, did (CipherFinal Base64) r)
         | Inr (fin, cipher1) \<Rightarrow>
             (let r1 = did (CipherFinal Base64) r
              in (cipher1,
                  handler_result
                    (await (if length fin > 0 then sink_write fin r1 else Inr r1)
                       (\<lambda>r2. await (sink_close r2)
                          (\<lambda>r3. Inr (resolve r3))))))))"

definition encrypt_onError :: "'c \<times> 'w run \<Rightarrow> error \<Rightarrow> 'c \<times> 'w run" where
  "encrypt_onError st err =
     (case st of (cipher, r) \<Rightarrow> (cipher, reject err (did (ConsoleError err) r)))"

definition encrypt_handle :: "'c quick_crypto \<Rightarrow> 'c \<times> 'w run \<Rightarrow> event \<Rightarrow> 'c \<times> 'w run" where
  "encrypt_handle QuickCrypto st ev =
     (case ev of
        OnData chunk \<Rightarrow> encrypt_onData QuickCrypto st chunk
      | OnEnd \<Rightarrow> encrypt_onEnd QuickCrypto st
      | OnError err \<Rightarrow> encrypt_onError st err)"

definition opened :: "read_stream \<Rightarrow> event list" where
  "opened s = rs_open s (rs_encoding s) (rs_bufferSize s)"

definition nativeEncryptStream ::
  "'c quick_crypto \<Rightarrow> jsstring \<Rightarrow> jsstring \<Rightarrow> read_stream \<Rightarrow> 'w write_stream \<Rightarrow> nat option
     \<Rightarrow> 'w run" where
  "nativeEncryptStream QuickCrypto key ivv inputStream outputStream bufferSize =
     (case encrypt_init QuickCrypto key ivv inputStream outputStream bufferSize of
        Inl error \<Rightarrow>
          reject error
            \<lparr>source = inputStream, sink = outputStream,
             promise = Pending, trace = []\<rparr>
      | Inr st \<Rightarrow>
          snd (foldl (encrypt_handle QuickCrypto) st (opened (source (snd st)))))"

subsection \<open>nativeDecryptStream\<close>

definition decrypt_init ::
  "'c quick_crypto \<Rightarrow> jsstring \<Rightarrow> jsstring \<Rightarrow> read_stream \<Rightarrow> 'w write_stream \<Rightarrow> nat option
     \<Rightarrow> error + ('c \<times> 'w run)" where
  "decrypt_init QuickCrypto key ivv inputStream outputStream bufferSize =
     (case createDecipheriv QuickCrypto of
        None \<Rightarrow> Inl (Error ''nativeCrypto.createDecipheriv is not supported'')
      | Some create \<Rightarrow>
          await (create alg (Buffer_from_base64 key) (Buffer_from_base64 ivv))
            (\<lambda>decipher.
               Inr (decipher,
                    \<lparr>source = inputStream
                       \<lparr>rs_bufferSize := config_bufferSize bufferSize (rs_bufferSize inputStream),
                        rs_encoding := Utf8\<rparr>,
                     sink = outputStream\<lparr>ws_encoding := Base64, ws_append := False\<rparr>,
                     promise = Pending,
                     trace = []\<rparr>)))"

definition decrypt_onData ::
  "'c quick_crypto \<Rightarrow> 'c \<times> 'w run \<Rightarrow> jsstring \<Rightarrow> 'c \<times> 'w run" where
  "decrypt_onData QuickCrypto st chunk =
     (case st of (decipher, r) \<Rightarrow>
        (case update QuickCrypto decipher chunk Base64 Utf8 of
           Inl e \<Rightarrow> (decipher, did (CipherUpdate chunk Base64 Utf8) r)
         | Inr (decryptedChunk, decipher1) \<Rightarrow>
             (decipher1,
              handler_result
                (sink_write decryptedChunk (did (CipherUpdate chunk Base64 Utf8) r)))))"

definition decrypt_onEnd :: "'c quick_crypto \<Rightarrow> 'c \<times> 'w run \<Rightarrow> 'c \<times> 'w run" where
  "decrypt_onEnd QuickCrypto st =
     (case st of (decipher, r) \<Rightarrow>
        (case final QuickCrypto decipher Utf8 of
           Inl e \<Rightarrow> (decipher, did (CipherFinal Utf8) r)
         | Inr (fin, decipher1) \<Rightarrow>
             (let r1 = did (CipherFinal Utf8) r
              in (decipher1,
                  handler_result
                    (await (if length fin > 0 then sink_write fin r1 else Inr r1)
                       (\<lambda>r2. await (sink_close r2)
                          (\<lambda>r3. Inr (resolve r3))))))))"

definition decrypt_onError :: "'c \<times> 'w run \<Rightarrow> error \<Rightarrow> 'c \<times> 'w run" where
  "decrypt_onError st err =
     (case st of (decipher, r) \<Rightarrow> (decipher, reject err (did (ConsoleError err) r)))"

definition decrypt_handle :: "'c quick_crypto \<Rightarrow> 'c \<times> 'w run \<Rightarrow> event \<Rightarrow> 'c \<times> 'w run" where
  "decrypt_handle QuickCrypto st ev =
     (case ev of
        OnData chunk \<Rightarrow> decrypt_onData QuickCrypto st chunk
      | OnEnd \<Rightarrow> decrypt_onEnd QuickCrypto st
      | OnError err \<Rightarrow> decrypt_onError st err)"

definition nativeDecryptStream ::
  "'c quick_crypto \<Rightarrow> jsstring \<Rightarrow> jsstring \<Rightarrow> read_stream \<Rightarrow> 'w write_stream \<Rightarrow> nat option
     \<Rightarrow> 'w run" where
  "nativeDecryptStream QuickCrypto key ivv inputStream outputStream bufferSize =
     (case decrypt_init QuickCrypto key ivv inputStream outputStream bufferSize of
        Inl err \<Rightarrow>
          reject err
            (did (ConsoleError err)
               \<lparr>source = inputStream, sink = outputStream,
                promise = Pending, trace = []\<rparr>)
      | Inr st \<Rightarrow>
          snd (foldl (decrypt_handle QuickCrypto) st (opened (source (snd st)))))"

subsection \<open>What the cipher is given and what the sink is asked to write\<close>

text \<open>
  The cipher object after \<^verbatim>\<open>update\<close> has been called on each of a list of chunks in
  turn, with what each call returned or threw; a call that throws leaves the object as
  it was.
\<close>

fun updates ::
  "'c quick_crypto \<Rightarrow> encoding \<Rightarrow> encoding \<Rightarrow> 'c \<Rightarrow> jsstring list
     \<Rightarrow> (error + jsstring) list \<times> 'c" where
  "updates QC ie oe c [] = ([], c)"
| "updates QC ie oe c (x # xs) =
     (case update QC c x ie oe of
        Inl e \<Rightarrow> (case updates QC ie oe c xs of (rs, c1) \<Rightarrow> (Inl e # rs, c1))
      | Inr (out, c1) \<Rightarrow> (case updates QC ie oe c1 xs of (rs, c2) \<Rightarrow> (Inr out # rs, c2)))"

text \<open>The calls made for the chunks: an update for each, and a write for each output.\<close>

fun data_trace ::
  "encoding \<Rightarrow> encoding \<Rightarrow> jsstring list \<Rightarrow> (error + jsstring) list \<Rightarrow> action list" where
  "data_trace ie oe (x # xs) (Inl e # rs) = CipherUpdate x ie oe # data_trace ie oe xs rs"
| "data_trace ie oe (x # xs) (Inr out # rs) =
     CipherUpdate x ie oe # SinkWrite out # data_trace ie oe xs rs"
| "data_trace ie oe xs rs = []"

fun written :: "(error + jsstring) list \<Rightarrow> jsstring list" where
  "written [] = []"
| "written (Inl e # rs) = written rs"
| "written (Inr out # rs) = out # written rs"

text \<open>The sink after a list of writes, those that reject leaving it as it was.\<close>

fun writes :: "'w write_stream \<Rightarrow> jsstring list \<Rightarrow> 'w write_stream" where
  "writes ws [] = ws"
| "writes ws (x # xs) =
     writes (case ws_write ws (ws_encoding ws) (ws_data ws) x of
               Inl e \<Rightarrow> ws
             | Inr d \<Rightarrow> ws\<lparr>ws_data := d\<rparr>) xs"

text \<open>Whether the promise of a call to the sink resolves.\<close>

definition write_resolves :: "'w write_stream \<Rightarrow> jsstring \<Rightarrow> bool" where
  "write_resolves ws data =
     (case ws_write ws (ws_encoding ws) (ws_data ws) data of Inl e \<Rightarrow> False | Inr d \<Rightarrow> True)"

definition close_resolves :: "'w write_stream \<Rightarrow> bool" where
  "close_resolves ws = (case ws_close ws (ws_data ws) of Inl e \<Rightarrow> False | Inr d \<Rightarrow> True)"

text \<open>The sink after \<^verbatim>\<open>close\<close>, when that resolves.\<close>

definition closed :: "'w write_stream \<Rightarrow> 'w write_stream" where
  "closed ws = (case ws_close ws (ws_data ws) of Inl e \<Rightarrow> ws | Inr d \<Rightarrow> ws\<lparr>ws_data := d\<rparr>)"

section \<open>The platform behind the providers\<close>

text \<open>
  The providers' code is outside the repository. What follows states their documented
  behaviour, so that properties of ciphertexts can be stated and proved on the repository's
  code: the UTF-8 decoder of the Encoding Standard, Node's \<^verbatim>\<open>StringDecoder\<close>, and
  OpenSSL's CBC mode with PKCS#7 padding as \<^verbatim>\<open>createCipheriv\<close> drives it. The
  block cipher (AES-256) and the key derivation function (PBKDF2) stay parameters.
\<close>

subsection \<open>Decoding UTF-8\<close>

datatype utf8_state = Idle | Need nat nat nat nat

definition utf8_units :: "nat \<Rightarrow> jsstring" where
  "utf8_units cp =
     (if cp < 0x10000 then [of_nat cp]
      else [of_nat (0xD800 + (cp - 0x10000) div 0x400),
            of_nat (0xDC00 + (cp - 0x10000) mod 0x400)])"

text \<open>
  \<open>Need cp n lo hi\<close>: a sequence has begun, \<open>cp\<close> holds its bits so far, \<open>n\<close> more
  bytes are needed and the next one must lie in \<open>lo .. hi\<close>.
\<close>

definition utf8_start :: "nat \<Rightarrow> jsstring \<times> utf8_state" where
  "utf8_start b =
     (if b < 0x80 then ([of_nat b], Idle)
      else if 0xC2 \<le> b \<and> b \<le> 0xDF then ([], Need (b - 0xC0) 1 0x80 0xBF)
      else if 0xE0 \<le> b \<and> b \<le> 0xEF then
        ([], Need (b - 0xE0) 2 (if b = 0xE0 then 0xA0 else 0x80) (if b = 0xED then 0x9F else 0xBF))
      else if 0xF0 \<le> b \<and> b \<le> 0xF4 then
        ([], Need (b - 0xF0) 3 (if b = 0xF0 then 0x90 else 0x80) (if b = 0xF4 then 0x8F else 0xBF))
      else ([0xFFFD], Idle))"

definition utf8_step :: "utf8_state \<Rightarrow> byte \<Rightarrow> jsstring \<times> utf8_state" where
  "utf8_step s byte =
     (let b = unat byte
      in case s of
           Idle \<Rightarrow> utf8_start b
         | Need cp n lo hi \<Rightarrow>
             if lo \<le> b \<and> b \<le> hi then
               (let cp1 = cp * 64 + (b - 0x80)
                in if n = 1 then (utf8_units cp1, Idle) else ([], Need cp1 (n - 1) 0x80 0xBF))
             else (case utf8_start b of (out, s1) \<Rightarrow> (0xFFFD # out, s1)))"

fun utf8_write :: "utf8_state \<Rightarrow> buffer \<Rightarrow> jsstring \<times> utf8_state" where
  "utf8_write s [] = ([], s)"
| "utf8_write s (b # bs) =
     (case utf8_step s b of (out1, s1) \<Rightarrow>
        (case utf8_write s1 bs of (out2, s2) \<Rightarrow> (out1 @ out2, s2)))"

definition utf8_end :: "utf8_state \<Rightarrow> jsstring" where
  "utf8_end s = (case s of Idle \<Rightarrow> [] | Need cp n lo hi \<Rightarrow> [0xFFFD])"

text \<open>\<^verbatim>\<open>buf.toString('utf8')\<close> and \<^verbatim>\<open>new TextDecoder().decode(buf)\<close>.\<close>

definition utf8_decode :: "buffer \<Rightarrow> jsstring" where
  "utf8_decode bs = (case utf8_write Idle bs of (out, s) \<Rightarrow> out @ utf8_end s)"

subsection \<open>StringDecoder\<close>

text \<open>
  The decoder of a cipher object's output lives as long as the object. For base64 it
  keeps the one or two bytes that do not fill a group of three; for UTF-8 it keeps the
  sequence that has begun.
\<close>

datatype string_decoder = Base64Decoder buffer | Utf8Decoder utf8_state

definition decoder_encoding :: "string_decoder \<Rightarrow> encoding" where
  "decoder_encoding d = (case d of Base64Decoder p \<Rightarrow> Base64 | Utf8Decoder s \<Rightarrow> Utf8)"

definition getDecoder :: "string_decoder option \<Rightarrow> encoding \<Rightarrow> error + string_decoder" where
  "getDecoder d enc =
     (case d of
        None \<Rightarrow> Inr (case enc of Base64 \<Rightarrow> Base64Decoder [] | Utf8 \<Rightarrow> Utf8Decoder Idle)
      | Some dec \<Rightarrow>
          if decoder_encoding dec = enc then Inr dec
          else Inl (Error ''Cannot change encoding''))"

definition decoder_write :: "string_decoder \<Rightarrow> buffer \<Rightarrow> jsstring \<times> string_decoder" where
  "decoder_write d buf =
     (case d of
        Base64Decoder pending \<Rightarrow>
          (let data = pending @ buf;
               n = length data mod 3
           in (toString_base64 (take (length data - n) data),
               Base64Decoder (drop (length data - n) data)))
      | Utf8Decoder s \<Rightarrow>
          (case utf8_write s buf of (out, s1) \<Rightarrow> (out, Utf8Decoder s1)))"

definition decoder_end :: "string_decoder \<Rightarrow> buffer \<Rightarrow> jsstring" where
  "decoder_end d buf =
     (case decoder_write d buf of
        (out, Base64Decoder pending) \<Rightarrow> out @ toString_base64 pending
      | (out, Utf8Decoder s) \<Rightarrow> out @ utf8_end s)"

subsection \<open>CBC with PKCS\#7 padding\<close>

record block_cipher =
  bc_encrypt :: "buffer \<Rightarrow> buffer \<Rightarrow> buffer"
  bc_decrypt :: "buffer \<Rightarrow> buffer \<Rightarrow> buffer"

text \<open>What is assumed of AES-256: on one block, decryption undoes encryption.\<close>

definition bc_ok :: "block_cipher \<Rightarrow> bool" where
  "bc_ok bc \<longleftrightarrow>
     (\<forall>k b. length k = 32 \<and> length b = 16 \<longrightarrow>
        length (bc_encrypt bc k b) = 16 \<and> bc_decrypt bc k (bc_encrypt bc k b) = b)"

definition xor_block :: "buffer \<Rightarrow> buffer \<Rightarrow> buffer" where
  "xor_block a b = map2 (XOR) a b"

function chunks :: "nat \<Rightarrow> 'a list \<Rightarrow> 'a list list" where
  "chunks n xs = (if n = 0 \<or> xs = [] then [] else take n xs # chunks n (drop n xs))"
  by pat_completeness auto
termination
  by (relation "measure (\<lambda>(n, xs). length xs)") auto

declare chunks.simps [simp del]

fun cbc_encrypt :: "block_cipher \<Rightarrow> buffer \<Rightarrow> buffer \<Rightarrow> buffer list \<Rightarrow> buffer list" where
  "cbc_encrypt bc k iv [] = []"
| "cbc_encrypt bc k iv (p # ps) =
     (let c = bc_encrypt bc k (xor_block p iv) in c # cbc_encrypt bc k c ps)"

fun cbc_decrypt :: "block_cipher \<Rightarrow> buffer \<Rightarrow> buffer \<Rightarrow> buffer list \<Rightarrow> buffer list" where
  "cbc_decrypt bc k iv [] = []"
| "cbc_decrypt bc k iv (c # cs) = xor_block (bc_decrypt bc k c) iv # cbc_decrypt bc k c cs"

definition pkcs7_pad :: "buffer \<Rightarrow> buffer" where
  "pkcs7_pad m = (let n = 16 - length m mod 16 in m @ replicate n (of_nat n))"

definition pkcs7_unpad :: "buffer \<Rightarrow> error + buffer" where
  "pkcs7_unpad p =
     (if length p \<noteq> 16 then Inl (Error ''bad decrypt'')
      else (let n = unat (last p)
            in if n = 0 \<or> 16 < n \<or> drop (16 - n) p \<noteq> replicate n (last p)
               then Inl (Error ''bad decrypt'')
               else Inr (take (16 - n) p)))"

record cipher_ctx =
  cx_encrypting :: bool
  cx_key :: buffer
  cx_iv :: buffer
  cx_buf :: buffer
  cx_decoder :: "string_decoder option"
  cx_finalized :: bool

definition ossl_create :: "bool \<Rightarrow> string \<Rightarrow> buffer \<Rightarrow> buffer \<Rightarrow> error + cipher_ctx" where
  "ossl_create encrypting algorithm key iv =
     (if algorithm \<noteq> ''aes-256-cbc'' then Inl (TypeError ''Unknown cipher'')
      else if length key \<noteq> 32 then Inl (RangeError ''Invalid key length'')
      else if length iv \<noteq> 16 then Inl (TypeError ''Invalid initialization vector'')
      else Inr \<lparr>cx_encrypting = encrypting, cx_key = key, cx_iv = iv, cx_buf = [],
                cx_decoder = None, cx_finalized = False\<rparr>)"

text \<open>
  Encryption emits every complete block. Decryption holds the last complete block back,
  since it may carry the padding.
\<close>

definition block_update :: "block_cipher \<Rightarrow> cipher_ctx \<Rightarrow> buffer \<Rightarrow> buffer \<times> cipher_ctx" where
  "block_update bc cx input =
     (let data = cx_buf cx @ input;
          keep = (if cx_encrypting cx then length data mod 16
                  else if data \<noteq> [] \<and> length data mod 16 = 0 then 16
                  else length data mod 16);
          n = length data - keep;
          bs = chunks 16 (take n data);
          out = (if cx_encrypting cx then cbc_encrypt bc (cx_key cx) (cx_iv cx) bs
                 else cbc_decrypt bc (cx_key cx) (cx_iv cx) bs);
          iv1 = (if cx_encrypting cx then last (cx_iv cx # out) else last (cx_iv cx # bs))
      in (concat out, cx\<lparr>cx_iv := iv1, cx_buf := drop n data\<rparr>))"

definition block_final :: "block_cipher \<Rightarrow> cipher_ctx \<Rightarrow> error + buffer" where
  "block_final bc cx =
     (if cx_encrypting cx
      then Inr (concat (cbc_encrypt bc (cx_key cx) (cx_iv cx) [pkcs7_pad (cx_buf cx)]))
      else if length (cx_buf cx) \<noteq> 16 then Inl (Error ''wrong final block length'')
      else pkcs7_unpad (concat (cbc_decrypt bc (cx_key cx) (cx_iv cx) [cx_buf cx])))"

definition input_bytes :: "jsstring \<Rightarrow> encoding \<Rightarrow> buffer" where
  "input_bytes data inputEncoding =
     (case inputEncoding of Utf8 \<Rightarrow> utf8_encode data | Base64 \<Rightarrow> Buffer_from_base64 data)"

definition ossl_update ::
  "block_cipher \<Rightarrow> cipher_ctx \<Rightarrow> jsstring \<Rightarrow> encoding \<Rightarrow> encoding
     \<Rightarrow> error + (jsstring \<times> cipher_ctx)" where
  "ossl_update bc cx data inputEncoding outputEncoding =
     (if cx_finalized cx then Inl (Error ''Trying to add data in unsupported state'')
      else
        (case block_update bc cx (input_bytes data inputEncoding) of (ret, cx1) \<Rightarrow>
           await (getDecoder (cx_decoder cx1) outputEncoding)
             (\<lambda>dec. case decoder_write dec ret of (out, dec1) \<Rightarrow>
                Inr (out, cx1\<lparr>cx_decoder := Some dec1\<rparr>))))"

definition ossl_final ::
  "block_cipher \<Rightarrow> cipher_ctx \<Rightarrow> encoding \<Rightarrow> error + (jsstring \<times> cipher_ctx)" where
  "ossl_final bc cx outputEncoding =
     (if cx_finalized cx then Inl (Error ''Unsupported state'')
      else
        await (block_final bc cx)
          (\<lambda>ret. await (getDecoder (cx_decoder cx) outputEncoding)
             (\<lambda>dec. Inr (decoder_end dec ret, cx\<lparr>cx_buf := [], cx_finalized := True\<rparr>))))"

subsection \<open>The providers over one cipher and one derivation function\<close>

datatype digest = SHA1 | SHA256 | SHA384 | SHA512

type_synonym pbkdf2 = "digest \<Rightarrow> buffer \<Rightarrow> buffer \<Rightarrow> nat \<Rightarrow> nat \<Rightarrow> buffer"

definition node_digest :: "string \<Rightarrow> digest option" where
  "node_digest d =
     (if d = ''sha1'' then Some SHA1 else if d = ''sha256'' then Some SHA256
      else if d = ''sha384'' then Some SHA384 else if d = ''sha512'' then Some SHA512
      else None)"

definition webcrypto_hash :: "string \<Rightarrow> digest option" where
  "webcrypto_hash h =
     (if h = ''SHA-1'' then Some SHA1 else if h = ''SHA-256'' then Some SHA256
      else if h = ''SHA-384'' then Some SHA384 else if h = ''SHA-512'' then Some SHA512
      else None)"

text \<open>
  \<^verbatim>\<open>pbkdf2Sync(password, salt, iterations, keylen, digest)\<close> takes a string password
  as its UTF-8 bytes and \<^verbatim>\<open>keylen\<close> in bytes.
\<close>

definition QuickCrypto_of :: "block_cipher \<Rightarrow> pbkdf2 \<Rightarrow> cipher_ctx quick_crypto" where
  "QuickCrypto_of bc kdf =
     \<lparr>pbkdf2Sync = Some (\<lambda>password salt iters keylen d.
        case node_digest d of
          None \<Rightarrow> Inl (TypeError ''Invalid digest'')
        | Some h \<Rightarrow> Inr (kdf h (utf8_encode password) salt iters keylen)),
      createCipheriv = Some (ossl_create True),
      createDecipheriv = Some (ossl_create False),
      update = ossl_update bc,
      final = ossl_final bc\<rparr>"

text \<open>
  \<^verbatim>\<open>importKey('raw', keyData, {name: 'PBKDF2'}, ...)\<close> keeps the key material;
  \<^verbatim>\<open>deriveBits(params, key, length)\<close> takes \<^verbatim>\<open>length\<close> in bits.
\<close>

definition WebCrypto_of :: "pbkdf2 \<Rightarrow> buffer web_crypto" where
  "WebCrypto_of kdf =
     \<lparr>subtle = Some
        \<lparr>importKey = Some (\<lambda>format keyData algorithm extractable usages.
           if format = ''raw'' then Inr keyData
           else Inl (TypeError ''Unsupported key format'')),
         deriveBits = Some (\<lambda>params key len.
           case webcrypto_hash (p_hash params) of
             None \<Rightarrow> Inl (Error ''Unrecognized algorithm name'')
           | Some h \<Rightarrow>
               if p_name params = ''PBKDF2'' \<and> len mod 8 = 0
               then Inr (kdf h key (p_salt params) (p_iterations params) (len div 8))
               else Inl (Error ''Operation is not supported''))\<rparr>\<rparr>"

subsection \<open>The repository's test source\<close>

text \<open>
  \<^verbatim>\<open>MockReadStream.open\<close>: the buffer is rendered in the encoding the stream has when
  opened and delivered in pieces of \<^verbatim>\<open>bufferSize || 1024\<close> characters, then the end
  is signalled. The handlers are \<^verbatim>\<open>async\<close>, so none of them throws into the loop.
\<close>

definition MockReadStream_open :: "buffer \<Rightarrow> encoding \<Rightarrow> nat option \<Rightarrow> event list" where
  "MockReadStream_open buffer enc bufferSize =
     (let dataToPush = (if enc = Base64 then toString_base64 buffer else utf8_decode buffer);
          chunkSize = (case bufferSize of None \<Rightarrow> 1024 | Some n \<Rightarrow> if n \<noteq> 0 then n else 1024)
      in map OnData (chunks chunkSize dataToPush) @ [OnEnd])"

definition MockReadStream :: "buffer \<Rightarrow> read_stream" where
  "MockReadStream data =
     \<lparr>rs_encoding = Utf8, rs_bufferSize = Some 1024, rs_open = MockReadStream_open data\<rparr>"

text \<open>
  \<^verbatim>\<open>MockWriteStream\<close>: a write turns the string into bytes by the encoding the sink
  has at that moment and keeps them as one more chunk; \<^verbatim>\<open>write\<close> and \<^verbatim>\<open>close\<close>
  always resolve.
\<close>

definition MockWriteStream_write ::
  "encoding \<Rightarrow> buffer list \<Rightarrow> jsstring \<Rightarrow> error + buffer list" where
  "MockWriteStream_write enc held data =
     (if enc = Base64 then Inr (held @ [Buffer_from_base64 data])
      else Inr (held @ [utf8_encode data]))"

definition MockWriteStream_close :: "buffer list \<Rightarrow> error + buffer list" where
  "MockWriteStream_close held = Inr held"

definition MockWriteStream :: "buffer list write_stream" where
  "MockWriteStream =
     \<lparr>ws_encoding = Utf8, ws_append = False, ws_data = [],
      ws_write = MockWriteStream_write, ws_close = MockWriteStream_close\<rparr>"

definition getBuffer :: "buffer list write_stream \<Rightarrow> buffer" where
  "getBuffer ws = concat (ws_data ws)"

subsection \<open>Other endpoints\<close>


definition FailingReadStream :: read_stream where
  "FailingReadStream =
     \<lparr>rs_encoding = Utf8, rs_bufferSize = Some 1024,
      rs_open = (\<lambda>enc bufferSize. [OnData (js ''QQ==''), OnError (Error ''read failed'')])\<rparr>"

definition ChunkwiseReadStream :: read_stream where
  "ChunkwiseReadStream =
     \<lparr>rs_encoding = Utf8, rs_bufferSize = Some 1,
      rs_open = (\<lambda>enc bufferSize.
        if enc = Base64
        then [OnData (toString_base64 [65]), OnData (toString_base64 [66]), OnEnd]
        else [OnData (utf8_decode [65, 66]), OnEnd])\<rparr>"

subsection \<open>A block cipher to run the model on\<close>

definition xor_cipher :: block_cipher where
  "xor_cipher =
     \<lparr>bc_encrypt = (\<lambda>k b. xor_block b (take 16 k)),
      bc_decrypt = (\<lambda>k b. xor_block b (take 16 k))\<rparr>"

definition zero_kdf :: pbkdf2 where
  "zero_kdf h password salt iters keylen = replicate keylen 0"


text \<open>A key of 32 bytes (1 to 32) and an initialization vector of 16 bytes (0 to 15).\<close>

definition key1 :: jsstring where
  "key1 = js ''AQIDBAUGBwgJCgsMDQ4PEBESExQVFhcYGRobHB0eHyA=''"

definition ivv1 :: jsstring where
  "ivv1 = js ''AAECAwQFBgcICQoLDA0ODw==''"

definition QC1 :: "cipher_ctx quick_crypto" where
  "QC1 = QuickCrypto_of xor_cipher zero_kdf"

definition ctx1 :: "bool \<Rightarrow> cipher_ctx" where
  "ctx1 e = \<lparr>cx_encrypting = e, cx_key = map of_nat [1..<33], cx_iv = map of_nat [0..<16],
          cx_buf = [], cx_decoder = None, cx_finalized = False\<rparr>"

text \<open>A decipher that holds the one block of ciphertext of the text \<^verbatim>\<open>DMS\<close>.\<close>

definition ctx2 :: cipher_ctx where
  "ctx2 = (ctx1 False)\<lparr>cx_buf := Buffer_from_base64 (js ''RU5SCgwODAIMDgwKDA4MEg=='')\<rparr>"

definition run1 :: "buffer list run" where
  "run1 = \<lparr>source = MockReadStream [], sink = MockWriteStream, promise = Pending, trace = []\<rparr>"

subsection \<open>The data handler as the specification words it\<close>

text \<open>
  The rule table of the specification has each arriving chunk decoded from base64 and the
  decoded form given to the cipher as UTF-8 text. This is that reading, to be compared
  with \<open>encrypt_onData\<close>, which is the code.
\<close>

definition spec_encrypt_onData ::
  "'c quick_crypto \<Rightarrow> 'c \<times> 'w run \<Rightarrow> jsstring \<Rightarrow> 'c \<times> 'w run" where
  "spec_encrypt_onData QuickCrypto st chunk =
     (case st of (cipher, r) \<Rightarrow>
        (let decoded = utf8_decode (Buffer_from_base64 chunk)
         in case update QuickCrypto cipher decoded Utf8 Base64 of
              Inl e \<Rightarrow> (cipher, did (CipherUpdate decoded Utf8 Base64) r)
            | Inr (encryptedChunk, cipher1) \<Rightarrow>
                (cipher1,
                 handler_result
                   (sink_write encryptedChunk (did (CipherUpdate decoded Utf8 Base64) r)))))"

subsection \<open>Text that is ASCII\<close>

text \<open>Base64 text is ASCII, where UTF-8 is one byte for each character.\<close>

definition ascii :: "jsstring \<Rightarrow> bool" where
  "ascii s \<longleftrightarrow> list_all (\<lambda>u. unat u < 128) s"

definition ascii_bytes :: "jsstring \<Rightarrow> buffer" where
  "ascii_bytes s = map (\<lambda>u. of_nat (unat u)) s"

text \<open>The ciphertext of a whole message: CBC over the blocks of the padded message.\<close>

definition cbc_message :: "block_cipher \<Rightarrow> buffer \<Rightarrow> buffer \<Rightarrow> buffer \<Rightarrow> buffer" where
  "cbc_message bc k iv m = concat (cbc_encrypt bc k iv (chunks 16 (pkcs7_pad m)))"

text \<open>The cipher object that \<^verbatim>\<open>createCipheriv\<close> returns for a valid key and vector.\<close>

definition fresh :: "bool \<Rightarrow> buffer \<Rightarrow> buffer \<Rightarrow> cipher_ctx" where
  "fresh e k iv = \<lparr>cx_encrypting = e, cx_key = k, cx_iv = iv, cx_buf = [],
                  cx_decoder = None, cx_finalized = False\<rparr>"

subsection \<open>Well-formed strings\<close>

text \<open>
  \<^verbatim>\<open>String.prototype.isWellFormed\<close> and \<^verbatim>\<open>toWellFormed\<close>: a string is well formed
  when every surrogate is half of a pair; \<^verbatim>\<open>toWellFormed\<close> puts U+FFFD for each
  surrogate that is not.
\<close>

definition lone :: "16 word \<Rightarrow> 16 word" where
  "lone u = (if is_high_surrogate u \<or> is_low_surrogate u then 0xFFFD else u)"

fun toWellFormed :: "jsstring \<Rightarrow> jsstring" where
  "toWellFormed [] = []"
| "toWellFormed [u] = [lone u]"
| "toWellFormed (u # l # us) =
     (if is_high_surrogate u \<and> is_low_surrogate l then u # l # toWellFormed us
      else lone u # toWellFormed (l # us))"

definition isWellFormed :: "jsstring \<Rightarrow> bool" where
  "isWellFormed s \<longleftrightarrow> toWellFormed s = s"

text \<open>A Unicode scalar value: a code point that is not a surrogate.\<close>

definition scalar :: "nat \<Rightarrow> bool" where
  "scalar cp \<longleftrightarrow> cp < 0x110000 \<and> (cp < 0xD800 \<or> 0xDFFF < cp)"

section \<open>Properties of key derivation\<close>

lemma await_Inr [simp]: "await (Inr x) k = k x"
  by (simp add: await_def)

lemma await_Inl [simp]: "await (Inl e) k = Inl e"
  by (simp add: await_def)

lemma await_return [simp]: "await p Inr = p"
  by (cases p) simp_all

text \<open>
  C3. The fingerprint hash is the key derivation applied twice: the first pass's output
  is the second pass's password, with the same salt, and a failure of either pass is the
  failure of the hash. This holds for the native and for the browser implementation,
  whatever the provider does.
\<close>

theorem generateHash_is_generateKey_twice:
  "nativeGenerateHash QuickCrypto P S
     = await (nativeGenerateKey QuickCrypto P S) (\<lambda>k1. nativeGenerateKey QuickCrypto k1 S)
   \<and> browserGenerateHash crypto P S
     = await (browserGenerateKey crypto P S) (\<lambda>k1. browserGenerateKey crypto k1 S)"
  by (simp add: nativeGenerateHash_def browserGenerateHash_def)

section \<open>Lists in pieces\<close>

lemma chunks_Nil [simp]: "chunks n [] = []"
  by (simp add: chunks.simps)

lemma chunks_step: "0 < n \<Longrightarrow> xs \<noteq> [] \<Longrightarrow> chunks n xs = take n xs # chunks n (drop n xs)"
  by (subst chunks.simps) simp

lemma concat_chunks [simp]: "0 < n \<Longrightarrow> concat (chunks n xs) = xs"
proof (induction n xs rule: chunks.induct)
  case (1 n xs)
  then show ?case by (cases "xs = []") (simp_all add: chunks_step)
qed

lemma replicate_numeral: "replicate (numeral k) x = x # replicate (pred_numeral k) x"
  by (simp add: numeral_eq_Suc)

lemma utf8_decode_Nil [simp]: "utf8_decode [] = []"
  by (simp add: utf8_decode_def utf8_end_def)

section \<open>Stream operations: what the handlers leave alone\<close>

lemma did_simps [simp]:
  "source (did a r) = source r" "sink (did a r) = sink r"
  "promise (did a r) = promise r" "trace (did a r) = trace r @ [a]"
  by (simp_all add: did_def)

lemma resolve_simps [simp]:
  "source (resolve r) = source r" "sink (resolve r) = sink r"
  "promise (resolve r) = (if promise r = Pending then Resolved else promise r)"
  "trace (resolve r) = trace r @ [Resolve]"
  by (simp_all add: resolve_def)

lemma reject_simps [simp]:
  "source (reject e r) = source r" "sink (reject e r) = sink r"
  "promise (reject e r) = (if promise r = Pending then Rejected e else promise r)"
  "trace (reject e r) = trace r @ [Reject e]"
  by (simp_all add: reject_def)

lemma handler_result_simps [simp]:
  "handler_result (Inl (e, r)) = r" "handler_result (Inr r) = r"
  by (simp_all add: handler_result_def)

lemma writes_frame [simp]:
  "ws_encoding (writes ws xs) = ws_encoding ws" "ws_append (writes ws xs) = ws_append ws"
  "ws_write (writes ws xs) = ws_write ws" "ws_close (writes ws xs) = ws_close ws"
  by (induction xs arbitrary: ws; simp split: sum.splits)+

lemma writes_append: "writes ws (xs @ ys) = writes (writes ws xs) ys"
  by (induction xs arbitrary: ws) simp_all

lemma closed_frame [simp]:
  "ws_encoding (closed ws) = ws_encoding ws" "ws_append (closed ws) = ws_append ws"
  "ws_write (closed ws) = ws_write ws" "ws_close (closed ws) = ws_close ws"
  by (simp_all add: closed_def split: sum.splits)

text \<open>A write, as one step: the call is recorded and the sink is what the write leaves.\<close>

lemma sink_write_result:
  "handler_result (sink_write d r)
     = r\<lparr>sink := writes (sink r) [d], trace := trace r @ [SinkWrite d]\<rparr>"
  by (simp add: sink_write_def did_def Let_def split: sum.splits)

lemma sink_write_resolves:
  "write_resolves (sink r) d \<Longrightarrow>
   sink_write d r = Inr (r\<lparr>sink := writes (sink r) [d], trace := trace r @ [SinkWrite d]\<rparr>)"
  by (simp add: sink_write_def write_resolves_def did_def Let_def split: sum.splits)

lemma sink_write_rejects:
  "\<not> write_resolves (sink r) d \<Longrightarrow>
   \<exists>e. sink_write d r = Inl (e, r\<lparr>trace := trace r @ [SinkWrite d]\<rparr>)"
  by (simp add: sink_write_def write_resolves_def did_def Let_def split: sum.splits)

lemma sink_close_resolves:
  "close_resolves (sink r) \<Longrightarrow>
   sink_close r = Inr (r\<lparr>sink := closed (sink r), trace := trace r @ [SinkClose]\<rparr>)"
  by (simp add: sink_close_def close_resolves_def closed_def did_def Let_def split: sum.splits)

lemma sink_close_rejects:
  "\<not> close_resolves (sink r) \<Longrightarrow>
   \<exists>e. sink_close r = Inl (e, r\<lparr>trace := trace r @ [SinkClose]\<rparr>)"
  by (simp add: sink_close_def close_resolves_def did_def Let_def split: sum.splits)

lemma encrypt_handle_frame:
  "source (snd (encrypt_handle QC st ev)) = source (snd st)
   \<and> ws_encoding (sink (snd (encrypt_handle QC st ev))) = ws_encoding (sink (snd st))"
  by (cases st; cases ev)
     (auto simp: encrypt_handle_def encrypt_onData_def encrypt_onEnd_def encrypt_onError_def
        sink_write_def sink_close_def await_def Let_def split: sum.splits prod.splits)

lemma decrypt_handle_frame:
  "source (snd (decrypt_handle QC st ev)) = source (snd st)
   \<and> ws_encoding (sink (snd (decrypt_handle QC st ev))) = ws_encoding (sink (snd st))"
  by (cases st; cases ev)
     (auto simp: decrypt_handle_def decrypt_onData_def decrypt_onEnd_def decrypt_onError_def
        sink_write_def sink_close_def await_def Let_def split: sum.splits prod.splits)

lemma encrypt_run_frame:
  "source (snd (foldl (encrypt_handle QC) st evs)) = source (snd st)
   \<and> ws_encoding (sink (snd (foldl (encrypt_handle QC) st evs))) = ws_encoding (sink (snd st))"
  by (induction evs arbitrary: st) (simp_all add: encrypt_handle_frame)

lemma decrypt_run_frame:
  "source (snd (foldl (decrypt_handle QC) st evs)) = source (snd st)
   \<and> ws_encoding (sink (snd (foldl (decrypt_handle QC) st evs))) = ws_encoding (sink (snd st))"
  by (induction evs arbitrary: st) (simp_all add: decrypt_handle_frame)

lemma encrypt_init_Inr:
  "createCipheriv QC = Some mk \<Longrightarrow> mk alg (Buffer_from_base64 key) (Buffer_from_base64 ivv) = Inr c \<Longrightarrow>
   encrypt_init QC key ivv inS outS bufferSize =
     Inr (c, \<lparr>source = inS\<lparr>rs_bufferSize := config_bufferSize bufferSize (rs_bufferSize inS),
                           rs_encoding := Base64\<rparr>,
              sink = outS\<lparr>ws_encoding := Utf8, ws_append := False\<rparr>,
              promise = Pending, trace = []\<rparr>)"
  by (simp add: encrypt_init_def)

lemma decrypt_init_Inr:
  "createDecipheriv QC = Some mk \<Longrightarrow> mk alg (Buffer_from_base64 key) (Buffer_from_base64 ivv) = Inr c \<Longrightarrow>
   decrypt_init QC key ivv inS outS bufferSize =
     Inr (c, \<lparr>source = inS\<lparr>rs_bufferSize := config_bufferSize bufferSize (rs_bufferSize inS),
                           rs_encoding := Utf8\<rparr>,
              sink = outS\<lparr>ws_encoding := Base64, ws_append := False\<rparr>,
              promise = Pending, trace = []\<rparr>)"
  by (simp add: decrypt_init_def)

lemma encrypt_source:
  "source (nativeEncryptStream QC key ivv inS outS bufferSize) =
     (case encrypt_init QC key ivv inS outS bufferSize of
        Inl e \<Rightarrow> inS | Inr st \<Rightarrow> source (snd st))"
  by (simp add: nativeEncryptStream_def encrypt_run_frame split: sum.splits)

lemma decrypt_source:
  "source (nativeDecryptStream QC key ivv inS outS bufferSize) =
     (case decrypt_init QC key ivv inS outS bufferSize of
        Inl e \<Rightarrow> inS | Inr st \<Rightarrow> source (snd st))"
  by (simp add: nativeDecryptStream_def decrypt_run_frame split: sum.splits)

lemma init_bufferSize_unchanged:
  "bufferSize = None \<or> bufferSize = Some 0 \<Longrightarrow>
   (case encrypt_init QC key ivv inS outS bufferSize of
        Inl e \<Rightarrow> True | Inr st \<Rightarrow> rs_bufferSize (source (snd st)) = rs_bufferSize inS)
   \<and> (case decrypt_init QC key ivv inS outS bufferSize of
        Inl e \<Rightarrow> True | Inr st \<Rightarrow> rs_bufferSize (source (snd st)) = rs_bufferSize inS)"
  by (auto simp: encrypt_init_def decrypt_init_def config_bufferSize_def await_def
      split: sum.splits option.splits)

section \<open>The buffer size parameter\<close>

text \<open>
  C9, as amended. When the cipher context has been constructed and the \<^verbatim>\<open>bufferSize\<close>
  argument is a number other than zero, the source endpoint's \<^verbatim>\<open>bufferSize\<close> field is
  that number after the operation; when the argument is omitted or is zero, the field is
  what it was. This holds for \<^verbatim>\<open>nativeEncryptStream\<close> and \<^verbatim>\<open>nativeDecryptStream\<close>,
  for every provider and every source.
\<close>

theorem bufferSize_set_when_truthy:
  "(\<forall>n mk c. bufferSize = Some n \<and> n \<noteq> 0 \<and> createCipheriv QC = Some mk
       \<and> mk alg (Buffer_from_base64 key) (Buffer_from_base64 ivv) = Inr c
     \<longrightarrow> rs_bufferSize (source (nativeEncryptStream QC key ivv inS outS bufferSize)) = Some n)
   \<and> (\<forall>n mk c. bufferSize = Some n \<and> n \<noteq> 0 \<and> createDecipheriv QC = Some mk
       \<and> mk alg (Buffer_from_base64 key) (Buffer_from_base64 ivv) = Inr c
     \<longrightarrow> rs_bufferSize (source (nativeDecryptStream QC key ivv inS outS bufferSize)) = Some n)
   \<and> (bufferSize = None \<or> bufferSize = Some 0
     \<longrightarrow> rs_bufferSize (source (nativeEncryptStream QC key ivv inS outS bufferSize))
           = rs_bufferSize inS
       \<and> rs_bufferSize (source (nativeDecryptStream QC key ivv inS outS bufferSize))
           = rs_bufferSize inS)"
proof (intro conjI allI impI)
  fix n mk c
  assume "bufferSize = Some n \<and> n \<noteq> 0 \<and> createCipheriv QC = Some mk
       \<and> mk alg (Buffer_from_base64 key) (Buffer_from_base64 ivv) = Inr c"
  then show "rs_bufferSize (source (nativeEncryptStream QC key ivv inS outS bufferSize)) = Some n"
    by (simp add: encrypt_source encrypt_init_Inr config_bufferSize_def)
next
  fix n mk c
  assume "bufferSize = Some n \<and> n \<noteq> 0 \<and> createDecipheriv QC = Some mk
       \<and> mk alg (Buffer_from_base64 key) (Buffer_from_base64 ivv) = Inr c"
  then show "rs_bufferSize (source (nativeDecryptStream QC key ivv inS outS bufferSize)) = Some n"
    by (simp add: decrypt_source decrypt_init_Inr config_bufferSize_def)
next
  assume a: "bufferSize = None \<or> bufferSize = Some 0"
  show "rs_bufferSize (source (nativeEncryptStream QC key ivv inS outS bufferSize))
           = rs_bufferSize inS"
    using init_bufferSize_unchanged [OF a, where QC = QC and key = key and ivv = ivv and inS = inS and outS = outS]
    by (auto simp: encrypt_source split: sum.splits)
next
  assume a: "bufferSize = None \<or> bufferSize = Some 0"
  show "rs_bufferSize (source (nativeDecryptStream QC key ivv inS outS bufferSize))
           = rs_bufferSize inS"
    using init_bufferSize_unchanged [OF a, where QC = QC and key = key and ivv = ivv and inS = inS and outS = outS]
    by (auto simp: decrypt_source split: sum.splits)
qed


section \<open>The inputs of the examples\<close>

lemma key1_bytes: "Buffer_from_base64 key1 = map of_nat [1..<33]"
  by (simp add: key1_def js_def Buffer_from_base64_def b64pad_def List.map_filter_def unbase64_def upt_rec[of _ "numeral _"])

lemma ivv1_bytes: "Buffer_from_base64 ivv1 = map of_nat [0..<16]"
  by (simp add: ivv1_def js_def Buffer_from_base64_def b64pad_def List.map_filter_def unbase64_def upt_rec[of _ "numeral _"])

lemma QC1_simps [simp]:
  "createCipheriv QC1 = Some (ossl_create True)"
  "createDecipheriv QC1 = Some (ossl_create False)"
  "update QC1 = ossl_update xor_cipher"
  "final QC1 = ossl_final xor_cipher"
  by (simp_all add: QC1_def QuickCrypto_of_def)

lemma create1:
  "ossl_create e alg (Buffer_from_base64 key1) (Buffer_from_base64 ivv1) = Inr (ctx1 e)"
  by (simp add: ossl_create_def alg_def key1_bytes ivv1_bytes ctx1_def)

theorem bufferSize_set_when_truthy_witness:
  "rs_bufferSize (source (nativeEncryptStream QC1 key1 ivv1 (MockReadStream []) MockWriteStream
      (Some 2048))) = Some 2048
   \<and> rs_bufferSize (source (nativeDecryptStream QC1 key1 ivv1 (MockReadStream []) MockWriteStream
      (Some 4096))) = Some 4096
   \<and> rs_bufferSize (source (nativeEncryptStream QC1 key1 ivv1 (MockReadStream []) MockWriteStream
      None)) = Some 1024"
  using bufferSize_set_when_truthy [of "Some 2048" QC1 key1 ivv1 "MockReadStream []" MockWriteStream]
    bufferSize_set_when_truthy [of "Some 4096" QC1 key1 ivv1 "MockReadStream []" MockWriteStream]
    bufferSize_set_when_truthy [of None QC1 key1 ivv1 "MockReadStream []" MockWriteStream]
  by (simp add: create1 MockReadStream_def)

text \<open>
  C9 as stated fails for the provided value 0: the test
  \<^verbatim>\<open>bufferSize ? bufferSize : inputStream.bufferSize\<close> takes it for absent, and the
  field keeps its 1024.
\<close>

theorem bufferSize_zero_counterexample:
  "rs_bufferSize (MockReadStream []) = Some 1024
   \<and> rs_bufferSize (source (nativeEncryptStream QC1 key1 ivv1 (MockReadStream []) MockWriteStream
        (Some 0))) = Some 1024"
  by (simp add: encrypt_source encrypt_init_Inr [OF QC1_simps(1) create1] config_bufferSize_def
      MockReadStream_def)




lemma ctx2_final:
  "ossl_final xor_cipher ctx2 Utf8
     = Inr (js ''DMS'', ctx2\<lparr>cx_buf := [], cx_finalized := True\<rparr>)"
  by (simp add: ossl_final_def ctx2_def ctx1_def block_final_def pkcs7_unpad_def xor_cipher_def
      xor_block_def getDecoder_def decoder_end_def decoder_write_def js_def
      Buffer_from_base64_def b64pad_def List.map_filter_def unbase64_def
      utf8_step_def utf8_start_def utf8_end_def upt_rec[of _ "numeral _"] replicate_numeral)

section \<open>Base64: decoding undoes encoding\<close>

lemma u16 [simp]: "n < 65536 \<Longrightarrow> unat (of_nat n :: 16 word) = n"
  by (simp add: unat_of_nat)

lemma u8 [simp]: "n < 256 \<Longrightarrow> unat (of_nat n :: 8 word) = n"
  by (simp add: unat_of_nat)

lemma unat_byte_less [simp]: "unat (b :: byte) < 256"
  using unsigned_less [of b, where 'a = nat] by simp

lemma unat_unit_less [simp]: "unat (u :: 16 word) < 65536"
  using unsigned_less [of u, where 'a = nat] by simp

lemma unat_b64char:
  assumes "n < 64"
  shows "unat (b64char n) =
     (if n < 26 then 65 + n else if n < 52 then 71 + n else if n < 62 then n - 4
      else if n = 62 then 43 else 47)"
proof -
  have "unat (of_nat (65 + n) :: 16 word) = 65 + n"
    by (rule u16) (use assms in simp)
  moreover have "unat (of_nat (71 + n) :: 16 word) = 71 + n"
    by (rule u16) (use assms in simp)
  moreover have "unat (of_nat (n - 4) :: 16 word) = n - 4"
    by (rule u16) (use assms in simp)
  ultimately show ?thesis
    by (simp add: b64char_def del: of_nat_add of_nat_diff)
qed

lemma unbase64_b64char:
  assumes "n < 64"
  shows "unbase64 (b64char n) = Some n"
proof -
  consider "n < 26" | "26 \<le> n" "n < 52" | "52 \<le> n" "n < 62" | "n = 62" | "n = 63"
    using assms by linarith
  then show ?thesis
  proof cases
    case 1
    then have "unat (b64char n) = 65 + n" using assms by (simp add: unat_b64char)
    then show ?thesis using 1 by (simp add: unbase64_def)
  next
    case 2
    then have "unat (b64char n) = 71 + n" using assms by (simp add: unat_b64char)
    then show ?thesis using 2 by (simp add: unbase64_def)
  next
    case 3
    then have "unat (b64char n) = n - 4" using assms by (simp add: unat_b64char)
    then show ?thesis using 3 by (simp add: unbase64_def Let_def) arith
  next
    case 4
    then show ?thesis by (simp add: unbase64_def b64char_def)
  next
    case 5
    then show ?thesis by (simp add: unbase64_def b64char_def)
  qed
qed

lemma unbase64_pad [simp]: "unbase64 b64pad = None"
  by (simp add: unbase64_def b64pad_def)

lemma b64char_not_pad: "n < 64 \<Longrightarrow> b64char n \<noteq> b64pad"
  using unbase64_b64char [of n] by auto

lemma digits_div: "r < q \<Longrightarrow> (x * q + r) div q = (x::nat)"
  by simp

lemma digits_mod: "r < q \<Longrightarrow> (x * q + r) mod q = (r::nat)"
  by simp

lemma recombine3:
  "((n div 64 div 64 div 64 * 64 + n div 64 div 64 mod 64) * 64 + n div 64 mod 64) * 64
     + n mod 64 = (n::nat)"
  by simp

lemma recombine2: "(n div 64 div 64 * 64 + n div 64 mod 64) * 64 + n mod 64 = (n::nat)"
  by simp

lemma recombine1: "n div 64 * 64 + n mod 64 = (n::nat)"
  by simp

lemma sextet_bound3:
  fixes a b c :: nat
  assumes "a < 256" "b < 256" "c < 256"
  shows "((a * 256 + b) * 256 + c) div 64 div 64 div 64 < 64"
  using assms by (simp add: div_mult2_eq [symmetric] less_mult_imp_div_less)

lemma sextet_bound2:
  fixes a b :: nat
  assumes "a < 256" "b < 256"
  shows "((a * 256 + b) * 4) div 64 div 64 < 64"
  using assms by (simp add: div_mult2_eq [symmetric] less_mult_imp_div_less)

lemma sextet_bound1:
  fixes a :: nat
  assumes "a < 256"
  shows "(a * 16) div 64 < 64"
  using assms by (simp add: less_mult_imp_div_less)

lemma map_filter_Cons_Some:
  "f x = Some y \<Longrightarrow> List.map_filter f (x # xs) = y # List.map_filter f xs"
  by (simp add: List.map_filter_def)

lemma decode_char4:
  assumes "s1 < 64" "s2 < 64" "s3 < 64" "s4 < 64"
  shows "Buffer_from_base64 (b64char s1 # b64char s2 # b64char s3 # b64char s4 # rest)
    = decode_sextets (s1 # s2 # s3 # s4
        # List.map_filter unbase64 (takeWhile (\<lambda>c. c \<noteq> b64pad) rest))"
  using assms
  by (simp add: Buffer_from_base64_def b64char_not_pad map_filter_Cons_Some unbase64_b64char
      del: decode_sextets.simps)

lemma byte3:
  fixes a b c :: byte
  defines "n \<equiv> (unat a * 256 + unat b) * 256 + unat c"
  shows "decode_sextets (n div 64 div 64 div 64 # n div 64 div 64 mod 64 # n div 64 mod 64
           # n mod 64 # rest) = a # b # c # decode_sextets rest"
proof -
  have d1: "n div 256 = unat a * 256 + unat b"
    unfolding n_def by (rule digits_div) simp
  have m1: "n mod 256 = unat c"
    unfolding n_def by (rule digits_mod) simp
  have d2: "(unat a * 256 + unat b) div 256 = unat a"
    by (rule digits_div) simp
  have m2: "(unat a * 256 + unat b) mod 256 = unat b"
    by (rule digits_mod) simp
  show ?thesis
    unfolding decode_sextets.simps Let_def recombine3 d1 m1 d2 m2 by simp
qed

lemma byte2:
  fixes a b :: byte
  defines "n \<equiv> (unat a * 256 + unat b) * 4"
  shows "decode_sextets [n div 64 div 64, n div 64 mod 64, n mod 64] = [a, b]"
proof -
  have d0: "n div 4 = unat a * 256 + unat b"
    unfolding n_def by simp
  have d2: "(unat a * 256 + unat b) div 256 = unat a"
    by (rule digits_div) simp
  have m2: "(unat a * 256 + unat b) mod 256 = unat b"
    by (rule digits_mod) simp
  show ?thesis
    unfolding decode_sextets.simps Let_def recombine2 d0 d2 m2 by simp
qed

lemma byte1:
  fixes a :: byte
  defines "n \<equiv> unat a * 16"
  shows "decode_sextets [n div 64, n mod 64] = [a]"
proof -
  have d0: "n div 16 = unat a"
    unfolding n_def by simp
  show ?thesis
    unfolding decode_sextets.simps Let_def recombine1 d0 by simp
qed

lemma Buffer_from_base64_Nil [simp]: "Buffer_from_base64 [] = []"
  by (simp add: Buffer_from_base64_def List.map_filter_def)

lemma Buffer_from_toString_base64 [simp]: "Buffer_from_base64 (toString_base64 bs) = bs"
proof (induction bs rule: toString_base64.induct)
  case (1 a b c rest)
  define n where "n = (unat a * 256 + unat b) * 256 + unat c"
  have bounds: "n div 64 div 64 div 64 < 64"
    unfolding n_def by (rule sextet_bound3) simp_all
  have "Buffer_from_base64 (toString_base64 (a # b # c # rest))
      = decode_sextets (n div 64 div 64 div 64 # n div 64 div 64 mod 64 # n div 64 mod 64
           # n mod 64 # List.map_filter unbase64 (takeWhile (\<lambda>c. c \<noteq> b64pad) (toString_base64 rest)))"
    using bounds by (simp add: Let_def decode_char4 n_def del: decode_sextets.simps)
  also have "\<dots> = a # b # c # Buffer_from_base64 (toString_base64 rest)"
    unfolding n_def by (simp only: byte3 Buffer_from_base64_def)
  finally show ?case using 1 by simp
next
  case (2 a b)
  define n where "n = (unat a * 256 + unat b) * 4"
  have bounds: "n div 64 div 64 < 64"
    unfolding n_def by (rule sextet_bound2) simp_all
  have "Buffer_from_base64 (toString_base64 [a, b])
     = decode_sextets [n div 64 div 64, n div 64 mod 64, n mod 64]"
    using bounds
    by (simp add: Let_def Buffer_from_base64_def b64char_not_pad map_filter_Cons_Some
        unbase64_b64char List.map_filter_def n_def del: decode_sextets.simps)
  then show ?case unfolding n_def by (simp only: byte2)
next
  case (3 a)
  define n where "n = unat a * 16"
  have bounds: "n div 64 < 64"
    unfolding n_def by (rule sextet_bound1) simp_all
  have "Buffer_from_base64 (toString_base64 [a]) = decode_sextets [n div 64, n mod 64]"
    using bounds
    by (simp add: Let_def Buffer_from_base64_def b64char_not_pad map_filter_Cons_Some
        unbase64_b64char List.map_filter_def n_def del: decode_sextets.simps)
  then show ?case unfolding n_def by (simp only: byte1)
next
  case 4
  show ?case by simp
qed


section \<open>Base64 text: ASCII, prefixes and pieces\<close>

lemma ascii_simps [simp]:
  "ascii []" "ascii (u # s) \<longleftrightarrow> unat u < 128 \<and> ascii s" "ascii (s @ t) \<longleftrightarrow> ascii s \<and> ascii t"
  by (simp_all add: ascii_def)

lemma unit_bytes_ascii: "unat u < 128 \<Longrightarrow> unit_bytes u = [of_nat (unat u)]"
  by (simp add: unit_bytes_def is_high_surrogate_def is_low_surrogate_def utf8_bytes_def)

lemma utf8_encode_ascii: "ascii s \<Longrightarrow> utf8_encode s = ascii_bytes s"
  by (induction s rule: utf8_encode.induct)
     (simp_all add: ascii_bytes_def unit_bytes_ascii is_high_surrogate_def)

lemma unat_b64char_less: "n < 64 \<Longrightarrow> unat (b64char n) < 128"
  by (auto simp: unat_b64char)

lemma unat_b64pad [simp]: "unat b64pad = 61"
  by (simp add: b64pad_def)

lemma ascii_toString_base64 [simp]: "ascii (toString_base64 bs)"
proof (induction bs rule: toString_base64.induct)
  case (1 a b c rest)
  have "((unat a * 256 + unat b) * 256 + unat c) div 64 div 64 div 64 < 64"
    by (rule sextet_bound3) simp_all
  then show ?case using 1 by (simp add: Let_def unat_b64char_less)
next
  case (2 a b)
  have "((unat a * 256 + unat b) * 4) div 64 div 64 < 64"
    by (rule sextet_bound2) simp_all
  then show ?case by (simp add: Let_def unat_b64char_less)
next
  case (3 a)
  have "(unat a * 16) div 64 < 64"
    by (rule sextet_bound1) simp_all
  then show ?case by (simp add: Let_def unat_b64char_less)
next
  case 4
  show ?case by simp
qed

lemma length_toString_base64: "length (toString_base64 bs) = 4 * ((length bs + 2) div 3)"
proof (induction bs rule: toString_base64.induct)
  case (1 a b c rest)
  have "(length rest + 5) div 3 = Suc ((length rest + 2) div 3)" by presburger
  then show ?case using 1 by (simp add: Let_def add.commute)
qed (simp_all add: Let_def)

lemma mult4_Suc: "4 * Suc j = Suc (Suc (Suc (Suc (4 * j))))"
  by simp

lemma mult3_Suc: "3 * Suc j = Suc (Suc (Suc (3 * j)))"
  by simp

lemma take_toString_base64:
  "take (4 * j) (toString_base64 bs) = toString_base64 (take (3 * j) bs)"
proof (induction j arbitrary: bs)
  case 0
  show ?case by simp
next
  case (Suc j)
  show ?case
  proof (cases bs rule: toString_base64.cases)
    case (1 a b c rest)
    then show ?thesis using Suc [of rest]
      unfolding mult4_Suc mult3_Suc by (simp add: Let_def)
  qed (simp_all add: Let_def mult4_Suc mult3_Suc del: mult_Suc_right)
qed

lemma drop_toString_base64:
  "drop (4 * j) (toString_base64 bs) = toString_base64 (drop (3 * j) bs)"
proof (induction j arbitrary: bs)
  case 0
  show ?case by simp
next
  case (Suc j)
  show ?case
  proof (cases bs rule: toString_base64.cases)
    case (1 a b c rest)
    then show ?thesis using Suc [of rest]
      unfolding mult4_Suc mult3_Suc by (simp add: Let_def)
  qed (simp_all add: Let_def mult4_Suc mult3_Suc del: mult_Suc_right)
qed

lemma toString_base64_append:
  "length xs mod 3 = 0 \<Longrightarrow> toString_base64 (xs @ ys) = toString_base64 xs @ toString_base64 ys"
proof (induction xs rule: toString_base64.induct)
  case (1 a b c rest)
  then show ?case by (simp add: Let_def)
qed simp_all

lemma toString_base64_eq_Nil [simp]: "toString_base64 bs = [] \<longleftrightarrow> bs = []"
  by (cases bs rule: toString_base64.cases) (simp_all add: Let_def)

lemma chunks_toString_base64:
  "0 < j \<Longrightarrow> chunks (4 * j) (toString_base64 bs) = map toString_base64 (chunks (3 * j) bs)"
proof (induction "3 * j" bs rule: chunks.induct)
  case (1 bs)
  show ?case
  proof (cases "bs = []")
    case True
    then show ?thesis by simp
  next
    case False
    with 1 show ?thesis
      by (simp add: chunks_step take_toString_base64 drop_toString_base64)
  qed
qed

text \<open>Strings decoded one by one, when each but the last has a length divisible by 4.\<close>

lemma decode_segments:
  "list_all (\<lambda>s. 4 dvd length s) segs \<Longrightarrow> concat segs @ s = toString_base64 bs \<Longrightarrow>
   concat (map Buffer_from_base64 segs) @ Buffer_from_base64 s = bs"
proof (induction segs arbitrary: bs)
  case Nil
  then show ?case by simp
next
  case (Cons x segs)
  from Cons.prems obtain j where j: "length x = 4 * j" by auto
  have x: "x = take (4 * j) (toString_base64 bs)"
    using Cons.prems(2) j by (metis append_eq_conv_conj concat.simps(2) append.assoc)
  have r: "concat segs @ s = drop (4 * j) (toString_base64 bs)"
    using Cons.prems(2) j by (metis append_eq_conv_conj concat.simps(2) append.assoc)
  have "concat (map Buffer_from_base64 segs) @ Buffer_from_base64 s = drop (3 * j) bs"
    using Cons.IH [of "drop (3 * j) bs"] Cons.prems(1) r by (simp add: drop_toString_base64)
  moreover have "Buffer_from_base64 x = take (3 * j) bs"
    using x by (simp add: take_toString_base64)
  ultimately show ?case by simp
qed

section \<open>CBC: blocks and padding\<close>

lemma chunks_append:
  "0 < n \<Longrightarrow> n dvd length xs \<Longrightarrow> chunks n (xs @ ys) = chunks n xs @ chunks n ys"
proof (induction n xs rule: chunks.induct)
  case (1 n xs)
  show ?case
  proof (cases "xs = []")
    case True
    then show ?thesis by simp
  next
    case False
    with 1(3) 1(2) have len: "n \<le> length xs"
      by (auto dest: dvd_imp_le)
    then have "n dvd length (drop n xs)"
      using 1(3) by simp
    with 1 False have "chunks n (drop n xs @ ys) = chunks n (drop n xs) @ chunks n ys"
      by simp
    then show ?thesis
      using False len 1(2) by (simp add: chunks_step)
  qed
qed

lemma chunks_concat:
  "0 < n \<Longrightarrow> list_all (\<lambda>b. length b = n) bs \<Longrightarrow> chunks n (concat bs) = bs"
proof (induction bs)
  case Nil
  show ?case by simp
next
  case (Cons b bs)
  then have "b \<noteq> []" by auto
  with Cons show ?case by (simp add: chunks_step)
qed

lemma chunks_lengths:
  "0 < n \<Longrightarrow> n dvd length xs \<Longrightarrow> list_all (\<lambda>b. length b = n) (chunks n xs)"
proof (induction n xs rule: chunks.induct)
  case (1 n xs)
  show ?case
  proof (cases "xs = []")
    case True
    then show ?thesis by simp
  next
    case False
    with 1(3) 1(2) have len: "n \<le> length xs"
      by (auto dest: dvd_imp_le)
    then have "n dvd length (drop n xs)"
      using 1(3) by simp
    with 1 False len show ?thesis
      by (simp add: chunks_step)
  qed
qed

lemma cbc_encrypt_append:
  "cbc_encrypt bc k iv (xs @ ys)
     = cbc_encrypt bc k iv xs @ cbc_encrypt bc k (last (iv # cbc_encrypt bc k iv xs)) ys"
  by (induction xs arbitrary: iv) (simp_all add: Let_def)

lemma cbc_decrypt_append:
  "cbc_decrypt bc k iv (xs @ ys)
     = cbc_decrypt bc k iv xs @ cbc_decrypt bc k (last (iv # xs)) ys"
  by (induction xs arbitrary: iv) simp_all

lemma length_xor_block [simp]: "length (xor_block a b) = min (length a) (length b)"
  by (simp add: xor_block_def)

lemma xor_block_cancel: "length a = length b \<Longrightarrow> xor_block (xor_block a b) b = a"
proof (induction a arbitrary: b)
  case Nil
  then show ?case by (simp add: xor_block_def)
next
  case (Cons x a)
  then obtain y b' where b: "b = y # b'" by (cases b) auto
  have "(x XOR y) XOR y = x"
    by (simp add: xor.assoc)
  with Cons b show ?case by (simp add: xor_block_def)
qed

lemma cbc_encrypt_lengths:
  "bc_ok bc \<Longrightarrow> length k = 32 \<Longrightarrow> length iv = 16 \<Longrightarrow> list_all (\<lambda>b. length b = 16) ps \<Longrightarrow>
   list_all (\<lambda>b. length b = 16) (cbc_encrypt bc k iv ps)"
  by (induction ps arbitrary: iv) (auto simp: Let_def bc_ok_def)

lemma cbc_decrypt_encrypt:
  "bc_ok bc \<Longrightarrow> length k = 32 \<Longrightarrow> length iv = 16 \<Longrightarrow> list_all (\<lambda>b. length b = 16) ps \<Longrightarrow>
   cbc_decrypt bc k iv (cbc_encrypt bc k iv ps) = ps"
proof (induction ps arbitrary: iv)
  case Nil
  show ?case by simp
next
  case (Cons p ps)
  have l: "length (xor_block p iv) = 16" using Cons.prems by simp
  have c: "length (bc_encrypt bc k (xor_block p iv)) = 16"
    and d: "bc_decrypt bc k (bc_encrypt bc k (xor_block p iv)) = xor_block p iv"
    using Cons.prems(1,2) l by (auto simp: bc_ok_def)
  have "xor_block (xor_block p iv) iv = p"
    using Cons.prems by (simp add: xor_block_cancel)
  with Cons c d show ?case by (simp add: Let_def)
qed

lemma last_iv_length:
  "length iv = 16 \<Longrightarrow> list_all (\<lambda>b. length b = 16) cs \<Longrightarrow> length (last (iv # cs)) = 16"
  by (induction cs arbitrary: iv) auto

lemma pad_arith0: "r < 16 \<Longrightarrow> (16 * d + r) + (16 - r) = 16 * (d + 1)" for d r :: nat
  by simp

lemma pad_arith: "n + (16 - n mod 16) = 16 * (n div 16 + 1)" for n :: nat
  using pad_arith0 [of "n mod 16" "n div 16"] by simp

lemma length_pkcs7_pad: "length (pkcs7_pad m) = 16 * (length m div 16 + 1)"
  using pad_arith [of "length m"] by (simp add: pkcs7_pad_def Let_def)

lemma mod16_diff: "16 dvd n \<Longrightarrow> n \<le> m \<Longrightarrow> (m - n) mod 16 = m mod 16" for m n :: nat
proof -
  assume a: "16 dvd n" "n \<le> m"
  then obtain k where k: "n = 16 * k" by (auto simp: dvd_def)
  have "((m - n) + 16 * k) mod 16 = (m - n) mod 16" by simp
  moreover have "(m - n) + 16 * k = m" using a k by simp
  ultimately show ?thesis by simp
qed

lemma pkcs7_pad_split:
  "16 dvd n \<Longrightarrow> n \<le> length m \<Longrightarrow> pkcs7_pad m = take n m @ pkcs7_pad (drop n m)"
  by (simp add: pkcs7_pad_def Let_def mod16_diff)

section \<open>CBC: the cipher context step by step\<close>

lemma cbc_message_split:
  assumes "16 dvd n" "n \<le> length m"
  shows "cbc_message bc k iv m
     = concat (cbc_encrypt bc k iv (chunks 16 (take n m)))
       @ cbc_message bc k (last (iv # cbc_encrypt bc k iv (chunks 16 (take n m)))) (drop n m)"
proof -
  have "16 dvd length (take n m)" using assms by simp
  then have "chunks 16 (pkcs7_pad m) = chunks 16 (take n m) @ chunks 16 (pkcs7_pad (drop n m))"
    using pkcs7_pad_split [OF assms] chunks_append [of 16 "take n m"] by simp
  then show ?thesis by (simp add: cbc_message_def cbc_encrypt_append)
qed

lemma block_update_encrypting:
  "cx_encrypting cx \<Longrightarrow>
   block_update bc cx x =
     (let data = cx_buf cx @ x;
          n = length data - length data mod 16;
          cs = cbc_encrypt bc (cx_key cx) (cx_iv cx) (chunks 16 (take n data))
      in (concat cs, cx\<lparr>cx_iv := last (cx_iv cx # cs), cx_buf := drop n data\<rparr>))"
  by (simp add: block_update_def Let_def)

text \<open>One call of \<open>block_update\<close> on an encrypting context.\<close>

lemma encrypt_update_step:
  assumes "cx_encrypting cx" "block_update bc cx x = (out, cx1)"
  shows "cbc_message bc (cx_key cx) (cx_iv cx) (cx_buf cx @ x @ rest)
           = out @ cbc_message bc (cx_key cx1) (cx_iv cx1) (cx_buf cx1 @ rest)"
    and "cx_encrypting cx1" and "length (cx_buf cx1) < 16"
    and "cx_decoder cx1 = cx_decoder cx" and "cx_finalized cx1 = cx_finalized cx"
    and "cx_key cx1 = cx_key cx"
proof -
  define data where "data = cx_buf cx @ x"
  define n where "n = length data - length data mod 16"
  have n16: "16 dvd n" unfolding n_def by (simp add: dvd_minus_mod)
  have nle: "n \<le> length (data @ rest)" unfolding n_def by simp
  have out: "out = concat (cbc_encrypt bc (cx_key cx) (cx_iv cx) (chunks 16 (take n data)))"
    and cx1: "cx1 = cx\<lparr>cx_iv := last (cx_iv cx
                 # cbc_encrypt bc (cx_key cx) (cx_iv cx) (chunks 16 (take n data))),
               cx_buf := drop n data\<rparr>"
    using assms(2)
    unfolding block_update_encrypting [OF assms(1)] Let_def data_def [symmetric] n_def [symmetric]
    by simp_all
  have tk: "take n (data @ rest) = take n data" "drop n (data @ rest) = drop n data @ rest"
    unfolding n_def by simp_all
  have m: "cx_buf cx @ x @ rest = data @ rest" by (simp add: data_def)
  have split: "cbc_message bc (cx_key cx) (cx_iv cx) (data @ rest)
     = concat (cbc_encrypt bc (cx_key cx) (cx_iv cx) (chunks 16 (take n data)))
       @ cbc_message bc (cx_key cx)
           (last (cx_iv cx # cbc_encrypt bc (cx_key cx) (cx_iv cx) (chunks 16 (take n data))))
           (drop n data @ rest)"
    using cbc_message_split [OF n16 nle, of bc "cx_key cx" "cx_iv cx"] unfolding tk .
  show "cbc_message bc (cx_key cx) (cx_iv cx) (cx_buf cx @ x @ rest)
           = out @ cbc_message bc (cx_key cx1) (cx_iv cx1) (cx_buf cx1 @ rest)"
    unfolding m split out cx1 by (simp del: take_append drop_append last.simps)
  show "cx_encrypting cx1" using assms(1) by (simp add: cx1)
  have "length data - n = length data mod 16" unfolding n_def by simp
  then show "length (cx_buf cx1) < 16" by (simp add: cx1)
  show "cx_decoder cx1 = cx_decoder cx" "cx_finalized cx1 = cx_finalized cx"
    "cx_key cx1 = cx_key cx"
    by (simp_all add: cx1)
qed

lemma encrypt_final_message:
  assumes "cx_encrypting cx" "length (cx_buf cx) < 16"
  shows "block_final bc cx = Inr (cbc_message bc (cx_key cx) (cx_iv cx) (cx_buf cx))"
proof -
  have "length (pkcs7_pad (cx_buf cx)) = 16"
    using assms(2) by (simp add: length_pkcs7_pad)
  then have "chunks 16 (pkcs7_pad (cx_buf cx)) = [pkcs7_pad (cx_buf cx)]"
    using chunks_concat [of 16 "[pkcs7_pad (cx_buf cx)]"] by simp
  then show ?thesis using assms(1) by (simp add: block_final_def cbc_message_def)
qed

lemma pkcs7_unpad_pad:
  assumes "length r < 16"
  shows "pkcs7_unpad (pkcs7_pad r) = Inr r"
proof -
  define n where "n = 16 - length r"
  have n: "0 < n" "n \<le> 16" "length r + n = 16" "16 - n = length r"
    using assms by (simp_all add: n_def)
  have p: "pkcs7_pad r = r @ replicate n (of_nat n)"
    using assms by (simp add: pkcs7_pad_def n_def)
  have l: "last (r @ replicate n (of_nat n :: byte)) = of_nat n"
    using n(1) by simp
  have u: "unat (of_nat n :: byte) = n"
    using n(2) by simp
  show ?thesis
    unfolding p pkcs7_unpad_def l u Let_def using n by simp
qed

lemma length_concat_cbc_encrypt:
  "bc_ok bc \<Longrightarrow> length k = 32 \<Longrightarrow> length iv = 16 \<Longrightarrow> list_all (\<lambda>b. length b = 16) ps \<Longrightarrow>
   length (concat (cbc_encrypt bc k iv ps)) = length (concat ps)"
  by (induction ps arbitrary: iv) (auto simp: Let_def bc_ok_def)

lemma length_cbc_message:
  assumes "bc_ok bc" "length k = 32" "length iv = 16"
  shows "length (cbc_message bc k iv m) = 16 * (length m div 16 + 1)"
proof -
  have "16 dvd length (pkcs7_pad m)" by (simp add: length_pkcs7_pad)
  then have "list_all (\<lambda>b. length b = 16) (chunks 16 (pkcs7_pad m))"
    by (simp add: chunks_lengths)
  then show ?thesis
    using assms by (simp add: cbc_message_def length_concat_cbc_encrypt length_pkcs7_pad)
qed

lemma keep_arith:
  fixes L q :: nat
  assumes "L \<le> 16 * (q + 1)"
  defines "keep \<equiv> (if L \<noteq> 0 \<and> L mod 16 = 0 then 16 else L mod 16)"
  shows "16 dvd (L - keep)" and "L - keep \<le> 16 * q" and "keep \<le> 16" and "keep \<le> L"
proof -
  show "keep \<le> 16" by (simp add: keep_def)
  show "keep \<le> L"
    unfolding keep_def by (auto intro: dvd_imp_le mod_less_eq_dividend)
  show "16 dvd (L - keep)"
    unfolding keep_def by (auto simp: dvd_minus_mod mod_eq_0_iff_dvd)
  show "L - keep \<le> 16 * q"
  proof (cases "L mod 16 = 0")
    case True
    then show ?thesis using assms(1) by (cases "L = 0") (simp_all add: keep_def)
  next
    case False
    then have "L \<noteq> 16 * (q + 1)" by auto
    with assms(1) have "L < (q + 1) * 16" by simp
    then have "L div 16 < q + 1" by (rule less_mult_imp_div_less)
    moreover have "L - L mod 16 = 16 * (L div 16)"
      by (simp add: minus_mod_eq_mult_div)
    ultimately show ?thesis using False by (simp add: keep_def)
  qed
qed

lemma block_update_decrypting:
  "\<not> cx_encrypting cx \<Longrightarrow>
   block_update bc cx x =
     (let data = cx_buf cx @ x;
          n = length data
                - (if length data \<noteq> 0 \<and> length data mod 16 = 0 then 16 else length data mod 16);
          cs = chunks 16 (take n data)
      in (concat (cbc_decrypt bc (cx_key cx) (cx_iv cx) cs),
          cx\<lparr>cx_iv := last (cx_iv cx # cs), cx_buf := drop n data\<rparr>))"
  by (simp add: block_update_def Let_def)

text \<open>One call of \<open>block_update\<close> on a decrypting context whose input is a ciphertext.\<close>

lemma decrypt_update_step:
  assumes ok: "bc_ok bc" and k: "length (cx_key cx) = 32" and iv: "length (cx_iv cx) = 16"
    and dec: "\<not> cx_encrypting cx"
    and Z: "cx_buf cx @ x @ rest = cbc_message bc (cx_key cx) (cx_iv cx) W"
  obtains n cx1 where "16 dvd n" and "n \<le> length W"
    and "block_update bc cx x = (take n W, cx1)"
    and "cx_buf cx1 @ rest = cbc_message bc (cx_key cx) (cx_iv cx1) (drop n W)"
    and "length (cx_iv cx1) = 16" and "length (cx_buf cx1) \<le> 16"
    and "cx_key cx1 = cx_key cx" and "\<not> cx_encrypting cx1"
    and "cx_decoder cx1 = cx_decoder cx" and "cx_finalized cx1 = cx_finalized cx"
proof -
  define data where "data = cx_buf cx @ x"
  define keep where
    "keep = (if length data \<noteq> 0 \<and> length data mod 16 = 0 then 16 else length data mod 16)"
  define n where "n = length data - keep"
  define q where "q = length W div 16"
  define A where "A = chunks 16 (take n W)"
  define CA where "CA = cbc_encrypt bc (cx_key cx) (cx_iv cx) A"
  define cx1 where "cx1 = cx\<lparr>cx_iv := last (cx_iv cx # CA), cx_buf := drop n data\<rparr>"
  have Z': "data @ rest = cbc_message bc (cx_key cx) (cx_iv cx) W"
    using Z by (simp add: data_def)
  have "length (data @ rest) = 16 * (q + 1)"
    unfolding Z' q_def using ok k iv by (rule length_cbc_message)
  then have L: "length data \<le> 16 * (q + 1)" by simp
  have n16: "16 dvd n" and nq: "n \<le> 16 * q" and keep16: "keep \<le> 16" and keepL: "keep \<le> length data"
    using keep_arith [OF L] unfolding n_def keep_def by simp_all
  have "16 * q \<le> length W" unfolding q_def by simp
  with nq have nW: "n \<le> length W" by simp
  have lenA: "list_all (\<lambda>b. length b = 16) A"
    unfolding A_def using n16 nW by (simp add: chunks_lengths)
  have lenCA: "list_all (\<lambda>b. length b = 16) CA"
    unfolding CA_def using ok k iv lenA by (rule cbc_encrypt_lengths)
  have "length (concat CA) = length (concat A)"
    unfolding CA_def using ok k iv lenA by (rule length_concat_cbc_encrypt)
  then have lenC: "length (concat CA) = n"
    unfolding A_def using nW by simp
  have split: "data @ rest = concat CA @ cbc_message bc (cx_key cx) (last (cx_iv cx # CA)) (drop n W)"
    unfolding Z' CA_def A_def by (rule cbc_message_split [OF n16 nW])
  have nle: "n \<le> length data" unfolding n_def by simp
  have "take n (data @ rest) = concat CA" unfolding split using lenC by simp
  then have tk: "take n data = concat CA" using nle by simp
  have "drop n (data @ rest) = cbc_message bc (cx_key cx) (last (cx_iv cx # CA)) (drop n W)"
    unfolding split using lenC by simp
  then have dr: "drop n data @ rest = cbc_message bc (cx_key cx) (last (cx_iv cx # CA)) (drop n W)"
    using nle by simp
  have ch: "chunks 16 (take n data) = CA"
    unfolding tk using lenCA by (simp add: chunks_concat)
  have "cbc_decrypt bc (cx_key cx) (cx_iv cx) CA = A"
    unfolding CA_def using ok k iv lenA by (rule cbc_decrypt_encrypt)
  then have out: "concat (cbc_decrypt bc (cx_key cx) (cx_iv cx) CA) = take n W"
    unfolding A_def by simp
  have upd: "block_update bc cx x = (take n W, cx1)"
    unfolding block_update_decrypting [OF dec] Let_def data_def [symmetric] keep_def [symmetric]
      n_def [symmetric] ch out cx1_def ..
  have "length data - n = keep" unfolding n_def using keepL by simp
  then have lb: "length (cx_buf cx1) \<le> 16" unfolding cx1_def using keep16 by simp
  have liv: "length (cx_iv cx1) = 16"
    unfolding cx1_def using last_iv_length [OF iv lenCA] by simp
  show ?thesis
  proof (rule that [of n cx1])
    show "cx_buf cx1 @ rest = cbc_message bc (cx_key cx) (cx_iv cx1) (drop n W)"
      unfolding cx1_def using dr by simp
    show "cx_key cx1 = cx_key cx" "\<not> cx_encrypting cx1" "cx_decoder cx1 = cx_decoder cx"
      "cx_finalized cx1 = cx_finalized cx"
      unfolding cx1_def using dec by simp_all
  qed (fact n16 nW upd liv lb)+
qed

lemma decrypt_final_message:
  assumes ok: "bc_ok bc" and k: "length (cx_key cx) = 32" and iv: "length (cx_iv cx) = 16"
    and dec: "\<not> cx_encrypting cx" and buf: "length (cx_buf cx) \<le> 16"
    and Z: "cx_buf cx = cbc_message bc (cx_key cx) (cx_iv cx) W"
  shows "length W < 16" and "block_final bc cx = Inr W"
proof -
  have "length (cx_buf cx) = 16 * (length W div 16 + 1)"
    unfolding Z using ok k iv by (rule length_cbc_message)
  with buf have q: "length W div 16 = 0" and lb: "length (cx_buf cx) = 16" by simp_all
  then show W: "length W < 16" by (simp add: div_eq_0_iff)
  then have lp: "length (pkcs7_pad W) = 16" by (simp add: length_pkcs7_pad)
  then have ch: "chunks 16 (pkcs7_pad W) = [pkcs7_pad W]"
    using chunks_concat [of 16 "[pkcs7_pad W]"] by simp
  have "cbc_decrypt bc (cx_key cx) (cx_iv cx)
          (cbc_encrypt bc (cx_key cx) (cx_iv cx) [pkcs7_pad W]) = [pkcs7_pad W]"
    using ok k iv by (rule cbc_decrypt_encrypt) (simp add: lp)
  moreover have "cx_buf cx = concat (cbc_encrypt bc (cx_key cx) (cx_iv cx) [pkcs7_pad W])"
    unfolding Z cbc_message_def ch ..
  ultimately have "concat (cbc_decrypt bc (cx_key cx) (cx_iv cx) [cx_buf cx]) = pkcs7_pad W"
    by (simp add: Let_def)
  then show "block_final bc cx = Inr W"
    unfolding block_final_def using dec lb W by (simp add: pkcs7_unpad_pad)
qed

section \<open>The text cipher's values\<close>

lemma aligned_take:
  fixes xs :: "'a list"
  defines "m \<equiv> length xs - length xs mod 3"
  shows "length (take m xs) mod 3 = 0"
proof -
  have "m mod 3 = 0" unfolding m_def by (simp add: mod_eq_0_iff_dvd dvd_minus_mod)
  moreover have "length (take m xs) = m" unfolding m_def by simp
  ultimately show ?thesis by simp
qed

lemma base64_decoder_write_eq:
  "decoder_write (Base64Decoder p) a =
     (toString_base64 (take (length (p @ a) - length (p @ a) mod 3) (p @ a)),
      Base64Decoder (drop (length (p @ a) - length (p @ a) mod 3) (p @ a)))"
  by (simp add: decoder_write_def Let_def)

lemma base64_decoder_end: "decoder_end (Base64Decoder p) b = toString_base64 (p @ b)"
proof -
  define xs where "xs = p @ b"
  define m where "m = length xs - length xs mod 3"
  have "decoder_end (Base64Decoder p) b
      = toString_base64 (take m xs) @ toString_base64 (drop m xs)"
    unfolding decoder_end_def base64_decoder_write_eq xs_def [symmetric] m_def [symmetric]
    by simp
  also have "\<dots> = toString_base64 (take m xs @ drop m xs)"
    unfolding m_def by (rule toString_base64_append [OF aligned_take, symmetric])
  also have "\<dots> = toString_base64 xs"
    by (simp only: append_take_drop_id)
  finally show ?thesis unfolding xs_def .
qed

lemma base64_decoder_write:
  assumes "decoder_write (Base64Decoder p) a = (s, d)"
  shows "\<exists>p1. d = Base64Decoder p1
           \<and> (\<forall>rest. toString_base64 (p @ a @ rest) = s @ toString_base64 (p1 @ rest))"
proof -
  define xs where "xs = p @ a"
  define m where "m = length xs - length xs mod 3"
  have "decoder_write (Base64Decoder p) a
      = (toString_base64 (take m xs), Base64Decoder (drop m xs))"
    unfolding base64_decoder_write_eq xs_def [symmetric] m_def [symmetric] ..
  with assms have s: "s = toString_base64 (take m xs)" and d: "d = Base64Decoder (drop m xs)"
    by simp_all
  have "toString_base64 (p @ a @ rest) = s @ toString_base64 (drop m xs @ rest)" for rest
  proof -
    have "p @ a @ rest = xs @ rest"
      unfolding xs_def by simp
    also have "\<dots> = (take m xs @ drop m xs) @ rest"
      by (simp only: append_take_drop_id)
    also have "\<dots> = take m xs @ (drop m xs @ rest)"
      by (simp only: append_assoc)
    finally have "toString_base64 (p @ a @ rest)
        = toString_base64 (take m xs @ (drop m xs @ rest))" by (rule arg_cong)
    also have "\<dots> = s @ toString_base64 (drop m xs @ rest)"
      unfolding s m_def by (rule toString_base64_append [OF aligned_take])
    finally show ?thesis .
  qed
  with d show ?thesis by blast
qed

lemma utf8_write_append:
  "utf8_write s (a @ b) =
     (case utf8_write s a of (out1, s1) \<Rightarrow>
        (case utf8_write s1 b of (out2, s2) \<Rightarrow> (out1 @ out2, s2)))"
  by (induction a arbitrary: s) (simp_all split: prod.splits)

lemma utf8_decoder_write_end:
  assumes "decoder_write (Utf8Decoder Idle) a = (t, d)"
  shows "t @ decoder_end d b = utf8_decode (a @ b)"
  using assms
  by (auto simp: decoder_write_def decoder_end_def utf8_decode_def utf8_write_append
      split: prod.splits)

lemma QuickCrypto_of_simps [simp]:
  "createCipheriv (QuickCrypto_of bc kdf) = Some (ossl_create True)"
  "createDecipheriv (QuickCrypto_of bc kdf) = Some (ossl_create False)"
  "update (QuickCrypto_of bc kdf) = ossl_update bc"
  "final (QuickCrypto_of bc kdf) = ossl_final bc"
  by (simp_all add: QuickCrypto_of_def)

lemma ossl_create_valid:
  "length k = 32 \<Longrightarrow> length iv = 16 \<Longrightarrow> ossl_create e alg k iv = Inr (fresh e k iv)"
  "length k = 32 \<Longrightarrow> length iv = 16 \<Longrightarrow> ossl_create e ''aes-256-cbc'' k iv = Inr (fresh e k iv)"
  by (simp_all add: ossl_create_def alg_def fresh_def)

lemma fresh_simps [simp]:
  "cx_encrypting (fresh e k iv) = e" "cx_key (fresh e k iv) = k" "cx_iv (fresh e k iv) = iv"
  "cx_buf (fresh e k iv) = []" "cx_decoder (fresh e k iv) = None"
  "cx_finalized (fresh e k iv) = False"
  by (simp_all add: fresh_def)

lemma nativeEncryptText_value:
  assumes k: "length (Buffer_from_base64 key) = 32" and iv: "length (Buffer_from_base64 ivv) = 16"
  shows "nativeEncryptText (QuickCrypto_of bc kdf) key ivv T
     = Inr (toString_base64
         (cbc_message bc (Buffer_from_base64 key) (Buffer_from_base64 ivv) (utf8_encode T)))"
proof -
  define K where "K = Buffer_from_base64 key"
  define IV where "IV = Buffer_from_base64 ivv"
  define cx0 where "cx0 = fresh True K IV"
  obtain out cx1 where u: "block_update bc cx0 (utf8_encode T) = (out, cx1)"
    by (cases "block_update bc cx0 (utf8_encode T)")
  have enc0: "cx_encrypting cx0" by (simp add: cx0_def)
  note st = encrypt_update_step [OF enc0 u]
  have m: "cbc_message bc K IV (utf8_encode T) = out @ cbc_message bc K (cx_iv cx1) (cx_buf cx1)"
    using st(1) [of "[]"] st(6) by (simp add: cx0_def)
  obtain s d where w: "decoder_write (Base64Decoder []) out = (s, d)"
    by (cases "decoder_write (Base64Decoder []) out")
  from base64_decoder_write [OF w] obtain p1 where d: "d = Base64Decoder p1"
    and b: "\<And>rest. toString_base64 ([] @ out @ rest) = s @ toString_base64 (p1 @ rest)"
    by blast
  have up: "ossl_update bc cx0 T Utf8 Base64 = Inr (s, cx1\<lparr>cx_decoder := Some d\<rparr>)"
    using u w st(4,5)
    by (simp add: ossl_update_def cx0_def input_bytes_def getDecoder_def)
  have fin: "block_final bc (cx1\<lparr>cx_decoder := Some (Base64Decoder p1)\<rparr>)
      = Inr (cbc_message bc K (cx_iv cx1) (cx_buf cx1))"
    using encrypt_final_message [of "cx1\<lparr>cx_decoder := Some (Base64Decoder p1)\<rparr>" bc] st(2,3,6)
    by (simp add: cx0_def)
  have fi: "ossl_final bc (cx1\<lparr>cx_decoder := Some d\<rparr>) Base64
      = Inr (toString_base64 (p1 @ cbc_message bc K (cx_iv cx1) (cx_buf cx1)),
             cx1\<lparr>cx_decoder := Some d, cx_buf := [], cx_finalized := True\<rparr>)"
    using st(5) by (simp add: ossl_final_def fin getDecoder_def d decoder_encoding_def
        base64_decoder_end cx0_def)
  show ?thesis
    using k iv b [of "cbc_message bc K (cx_iv cx1) (cx_buf cx1)"]
    by (simp add: nativeEncryptText_def ossl_create_valid K_def [symmetric] IV_def [symmetric]
        cx0_def [symmetric] up fi m)
qed

lemma nativeDecryptText_value:
  assumes ok: "bc_ok bc"
    and k: "length (Buffer_from_base64 key) = 32" and iv: "length (Buffer_from_base64 ivv) = 16"
  shows "nativeDecryptText (QuickCrypto_of bc kdf) key ivv
           (toString_base64 (cbc_message bc (Buffer_from_base64 key) (Buffer_from_base64 ivv) W))
     = Inr (utf8_decode W)"
proof -
  define K where "K = Buffer_from_base64 key"
  define IV where "IV = Buffer_from_base64 ivv"
  define cx0 where "cx0 = fresh False K IV"
  define C where "C = cbc_message bc K IV W"
  have pre: "length (cx_key cx0) = 32" "length (cx_iv cx0) = 16" "\<not> cx_encrypting cx0"
    "cx_buf cx0 @ C @ [] = cbc_message bc (cx_key cx0) (cx_iv cx0) W"
    using k iv by (simp_all add: cx0_def K_def IV_def C_def)
  from decrypt_update_step [OF ok pre]
  obtain n cx1 where n: "16 dvd n" "n \<le> length W"
    and u: "block_update bc cx0 C = (take n W, cx1)"
    and z: "cx_buf cx1 @ [] = cbc_message bc (cx_key cx0) (cx_iv cx1) (drop n W)"
    and c1: "length (cx_iv cx1) = 16" "length (cx_buf cx1) \<le> 16" "cx_key cx1 = cx_key cx0"
      "\<not> cx_encrypting cx1" "cx_decoder cx1 = cx_decoder cx0" "cx_finalized cx1 = cx_finalized cx0"
    by blast
  obtain t d where w: "decoder_write (Utf8Decoder Idle) (take n W) = (t, d)"
    by (cases "decoder_write (Utf8Decoder Idle) (take n W)")
  have up: "ossl_update bc cx0 (toString_base64 C) Base64 Utf8
      = Inr (t, cx1\<lparr>cx_decoder := Some d\<rparr>)"
    using u w c1(5,6) by (simp add: ossl_update_def cx0_def input_bytes_def getDecoder_def)
  have fin: "block_final bc (cx1\<lparr>cx_decoder := Some d\<rparr>) = Inr (drop n W)"
    using decrypt_final_message [of bc "cx1\<lparr>cx_decoder := Some d\<rparr>" "drop n W"] ok c1 z pre(1)
    by simp
  have enc_d: "decoder_encoding d = Utf8"
    using w by (auto simp: decoder_write_def decoder_encoding_def split: prod.splits)
  have fi: "ossl_final bc (cx1\<lparr>cx_decoder := Some d\<rparr>) Utf8
      = Inr (decoder_end d (drop n W),
             cx1\<lparr>cx_decoder := Some d, cx_buf := [], cx_finalized := True\<rparr>)"
    using c1(6) by (simp add: ossl_final_def fin getDecoder_def enc_d cx0_def)
  have "t @ decoder_end d (drop n W) = utf8_decode (take n W @ drop n W)"
    using w by (rule utf8_decoder_write_end)
  then show ?thesis
    using k iv
    by (simp add: nativeDecryptText_def ossl_create_valid K_def [symmetric] IV_def [symmetric]
        cx0_def [symmetric] C_def [symmetric] up fi)
qed

section \<open>UTF-8: decoding undoes encoding\<close>

lemma utf8_write_1:
  assumes "cp < 0x80"
  shows "utf8_write Idle (utf8_bytes cp @ bs)
     = (case utf8_write Idle bs of (out, s) \<Rightarrow> (utf8_units cp @ out, s))"
  using assms
  by (simp add: utf8_bytes_def utf8_step_def utf8_start_def utf8_units_def split: prod.splits)

lemma utf8_write_2:
  assumes "0x80 \<le> cp" "cp < 0x800"
  shows "utf8_write Idle (utf8_bytes cp @ bs)
     = (case utf8_write Idle bs of (out, s) \<Rightarrow> (utf8_units cp @ out, s))"
proof -
  define d where "d = cp div 64"
  define r where "r = cp mod 64"
  have cp: "d * 64 + r = cp" by (simp add: d_def r_def)
  have r: "r < 64" by (simp add: r_def)
  have d: "2 \<le> d" "d < 32"
    using assms div_le_mono [of 128 cp 64] less_mult_imp_div_less [of cp 32 64]
    by (simp_all add: d_def)
  have b: "utf8_bytes cp = [of_nat (0xC0 + d), of_nat (0x80 + r)]"
    using assms by (simp add: utf8_bytes_def d_def r_def)
  have u0: "unat (of_nat (0xC0 + d) :: byte) = 0xC0 + d"
    by (rule u8) (use d in simp)
  have u1: "unat (of_nat (0x80 + r) :: byte) = 0x80 + r"
    by (rule u8) (use r in simp)
  have s0: "utf8_step Idle (of_nat (0xC0 + d)) = ([], Need d 1 0x80 0xBF)"
    unfolding utf8_step_def u0 Let_def using d by (simp add: utf8_start_def)
  have s1: "utf8_step (Need d 1 0x80 0xBF) (of_nat (0x80 + r)) = (utf8_units cp, Idle)"
    unfolding utf8_step_def u1 Let_def using r cp by simp
  show ?thesis
    unfolding b append_Cons append_Nil utf8_write.simps s0 s1 prod.case
    by (simp split: prod.splits)
qed

lemma utf8_write_3:
  assumes "0x800 \<le> cp" "cp < 0x10000" "cp < 0xD800 \<or> 0xDFFF < cp"
  shows "utf8_write Idle (utf8_bytes cp @ bs)
     = (case utf8_write Idle bs of (out, s) \<Rightarrow> (utf8_units cp @ out, s))"
proof -
  define d2 where "d2 = cp div 64 div 64"
  define d1 where "d1 = cp div 64 mod 64"
  define r where "r = cp mod 64"
  have cp: "(d2 * 64 + d1) * 64 + r = cp" by (simp add: d2_def d1_def r_def)
  have d: "d2 * 64 + d1 = cp div 64" by (simp add: d2_def d1_def)
  have r: "r < 64" and d1: "d1 < 64" by (simp_all add: r_def d1_def)
  have "cp div 64 < 1024"
    using assms(2) less_mult_imp_div_less [of cp 1024 64] by simp
  then have d2: "d2 < 16"
    unfolding d2_def using less_mult_imp_div_less [of "cp div 64" 16 64] by simp
  have lo: "d2 = 0 \<Longrightarrow> 32 \<le> d1"
    using assms(1) div_le_mono [of 2048 cp 64] d by simp
  have hi: "d2 = 13 \<Longrightarrow> d1 < 32"
  proof (rule ccontr)
    assume a: "d2 = 13" "\<not> d1 < 32"
    then have "864 \<le> cp div 64" using d by simp
    then have "864 * 64 \<le> cp" by (simp add: less_eq_div_iff_mult_less_eq)
    moreover have "cp div 64 < 896" using a d d1 by simp
    then have "cp < 896 * 64" by (simp add: div_less_iff_less_mult)
    ultimately show False using assms(3) by simp
  qed
  have b: "utf8_bytes cp = [of_nat (0xE0 + d2), of_nat (0x80 + d1), of_nat (0x80 + r)]"
    using assms by (simp add: utf8_bytes_def d2_def d1_def r_def)
  have u0: "unat (of_nat (0xE0 + d2) :: byte) = 0xE0 + d2"
    by (rule u8) (use d2 in simp)
  have u1: "unat (of_nat (0x80 + d1) :: byte) = 0x80 + d1"
    by (rule u8) (use d1 in simp)
  have u2: "unat (of_nat (0x80 + r) :: byte) = 0x80 + r"
    by (rule u8) (use r in simp)
  have s0: "utf8_step Idle (of_nat (0xE0 + d2))
      = ([], Need d2 2 (if d2 = 0 then 0xA0 else 0x80) (if d2 = 13 then 0x9F else 0xBF))"
    unfolding utf8_step_def u0 Let_def using d2 by (simp add: utf8_start_def)
  have s1: "utf8_step (Need d2 2 (if d2 = 0 then 0xA0 else 0x80) (if d2 = 13 then 0x9F else 0xBF))
        (of_nat (0x80 + d1)) = ([], Need (d2 * 64 + d1) 1 0x80 0xBF)"
    unfolding utf8_step_def u1 Let_def using d1 lo hi by auto
  have s2: "utf8_step (Need (d2 * 64 + d1) 1 0x80 0xBF) (of_nat (0x80 + r)) = (utf8_units cp, Idle)"
    unfolding utf8_step_def u2 Let_def using r cp by simp
  show ?thesis
    unfolding b append_Cons append_Nil utf8_write.simps s0 s1 s2 prod.case
    by (simp split: prod.splits)
qed

lemma utf8_write_4:
  assumes "0x10000 \<le> cp" "cp < 0x110000"
  shows "utf8_write Idle (utf8_bytes cp @ bs)
     = (case utf8_write Idle bs of (out, s) \<Rightarrow> (utf8_units cp @ out, s))"
proof -
  define d3 where "d3 = cp div 64 div 64 div 64"
  define d2 where "d2 = cp div 64 div 64 mod 64"
  define d1 where "d1 = cp div 64 mod 64"
  define r where "r = cp mod 64"
  have cp: "((d3 * 64 + d2) * 64 + d1) * 64 + r = cp"
    by (simp add: d3_def d2_def d1_def r_def)
  have d: "d3 * 64 + d2 = cp div 64 div 64" by (simp add: d3_def d2_def)
  have r: "r < 64" and d1: "d1 < 64" and d2: "d2 < 64" by (simp_all add: r_def d1_def d2_def)
  have "cp div 64 < 17408"
    using assms(2) less_mult_imp_div_less [of cp 17408 64] by simp
  then have c2: "cp div 64 div 64 < 272"
    using less_mult_imp_div_less [of "cp div 64" 272 64] by simp
  then have "d3 < 5"
    unfolding d3_def using less_mult_imp_div_less [of "cp div 64 div 64" 5 64] by simp
  then have d3: "d3 \<le> 4" by simp
  have "1024 \<le> cp div 64"
    using assms(1) div_le_mono [of 65536 cp 64] by simp
  then have c2': "16 \<le> cp div 64 div 64"
    using div_le_mono [of 1024 "cp div 64" 64] by simp
  have lo: "d3 = 0 \<Longrightarrow> 16 \<le> d2" using c2' d by simp
  have hi: "d3 = 4 \<Longrightarrow> d2 < 16" using c2 d by simp
  have b: "utf8_bytes cp
      = [of_nat (0xF0 + d3), of_nat (0x80 + d2), of_nat (0x80 + d1), of_nat (0x80 + r)]"
    using assms by (simp add: utf8_bytes_def d3_def d2_def d1_def r_def)
  have u0: "unat (of_nat (0xF0 + d3) :: byte) = 0xF0 + d3"
    by (rule u8) (use d3 in simp)
  have u1: "unat (of_nat (0x80 + d2) :: byte) = 0x80 + d2"
    by (rule u8) (use d2 in simp)
  have u2: "unat (of_nat (0x80 + d1) :: byte) = 0x80 + d1"
    by (rule u8) (use d1 in simp)
  have u3: "unat (of_nat (0x80 + r) :: byte) = 0x80 + r"
    by (rule u8) (use r in simp)
  have s0: "utf8_step Idle (of_nat (0xF0 + d3))
      = ([], Need d3 3 (if d3 = 0 then 0x90 else 0x80) (if d3 = 4 then 0x8F else 0xBF))"
    unfolding utf8_step_def u0 Let_def using d3 by (simp add: utf8_start_def)
  have s1: "utf8_step (Need d3 3 (if d3 = 0 then 0x90 else 0x80) (if d3 = 4 then 0x8F else 0xBF))
        (of_nat (0x80 + d2)) = ([], Need (d3 * 64 + d2) 2 0x80 0xBF)"
    unfolding utf8_step_def u1 Let_def using d2 lo hi by auto
  have s2: "utf8_step (Need (d3 * 64 + d2) 2 0x80 0xBF) (of_nat (0x80 + d1))
      = ([], Need ((d3 * 64 + d2) * 64 + d1) 1 0x80 0xBF)"
    unfolding utf8_step_def u2 Let_def using d1 by simp
  have s3: "utf8_step (Need ((d3 * 64 + d2) * 64 + d1) 1 0x80 0xBF) (of_nat (0x80 + r))
      = (utf8_units cp, Idle)"
    unfolding utf8_step_def u3 Let_def using r cp by simp
  show ?thesis
    unfolding b append_Cons append_Nil utf8_write.simps s0 s1 s2 s3 prod.case
    by (simp split: prod.splits)
qed

lemma utf8_write_bytes:
  assumes "scalar cp"
  shows "utf8_write Idle (utf8_bytes cp @ bs)
     = (case utf8_write Idle bs of (out, s) \<Rightarrow> (utf8_units cp @ out, s))"
proof -
  consider "cp < 0x80" | "0x80 \<le> cp" "cp < 0x800" | "0x800 \<le> cp" "cp < 0x10000"
    | "0x10000 \<le> cp"
    by linarith
  then show ?thesis
  proof cases
    case 1
    then show ?thesis by (rule utf8_write_1)
  next
    case 2
    then show ?thesis by (rule utf8_write_2)
  next
    case 3
    then show ?thesis using assms by (intro utf8_write_3) (simp_all add: scalar_def)
  next
    case 4
    then show ?thesis using assms by (intro utf8_write_4) (simp_all add: scalar_def)
  qed
qed

lemma utf8_units_unit: "utf8_units (unat (u :: 16 word)) = [u]"
  by (simp add: utf8_units_def)

lemma utf8_write_unit:
  "utf8_write Idle (unit_bytes u @ bs)
     = (case utf8_write Idle bs of (out, s) \<Rightarrow> (lone u # out, s))"
proof (cases "is_high_surrogate u \<or> is_low_surrogate u")
  case True
  have "scalar 0xFFFD" by (simp add: scalar_def)
  then show ?thesis
    using True utf8_write_bytes [of "0xFFFD" bs]
    by (simp add: unit_bytes_def lone_def utf8_units_def)
next
  case False
  then have "scalar (unat u)"
    by (auto simp: scalar_def is_high_surrogate_def is_low_surrogate_def
        intro: less_trans [OF unat_unit_less])
  then show ?thesis
    using False utf8_write_bytes [of "unat u" bs]
    by (simp add: unit_bytes_def lone_def utf8_units_unit)
qed

lemma utf8_units_pair:
  assumes "is_high_surrogate u" "is_low_surrogate l"
  shows "scalar (code_point u l)" and "utf8_units (code_point u l) = [u, l]"
proof -
  define h where "h = unat u - 0xD800"
  define w where "w = unat l - 0xDC00"
  have h: "h < 0x400" "0xD800 + h = unat u"
    using assms(1) unfolding h_def is_high_surrogate_def by linarith+
  have w: "w < 0x400" "0xDC00 + w = unat l"
    using assms(2) unfolding w_def is_low_surrogate_def by linarith+
  have cp: "code_point u l = 0x10000 + (h * 0x400 + w)"
    by (simp add: code_point_def h_def w_def)
  have "h \<le> 1023" using h(1) by simp
  then have "h * 1024 \<le> 1023 * 1024" by (rule mult_le_mono1)
  then have "h * 1024 + w < 1048576" using w(1) by simp
  then show "scalar (code_point u l)"
    unfolding cp scalar_def by simp
  have d: "(h * 0x400 + w) div 0x400 = h" and m: "(h * 0x400 + w) mod 0x400 = w"
    using w(1) by (simp_all add: digits_div digits_mod)
  have "utf8_units (code_point u l) = [of_nat (0xD800 + h), of_nat (0xDC00 + w)]"
    unfolding cp utf8_units_def using d m by simp
  then show "utf8_units (code_point u l) = [u, l]"
    unfolding h(2) w(2) by simp
qed

lemma utf8_write_encode:
  "utf8_write Idle (utf8_encode T @ bs)
     = (case utf8_write Idle bs of (out, s) \<Rightarrow> (toWellFormed T @ out, s))"
proof (induction T rule: utf8_encode.induct)
  case 1
  show ?case by (simp split: prod.splits)
next
  case (2 u)
  show ?case by (simp add: utf8_write_unit split: prod.splits)
next
  case (3 u l us)
  show ?case
  proof (cases "is_high_surrogate u \<and> is_low_surrogate l")
    case True
    then have e: "utf8_encode (u # l # us) = utf8_bytes (code_point u l) @ utf8_encode us"
      and t: "toWellFormed (u # l # us) = u # l # toWellFormed us"
      by simp_all
    from True have p: "scalar (code_point u l)" "utf8_units (code_point u l) = [u, l]"
      by (simp_all add: utf8_units_pair)
    show ?thesis
      unfolding e t using 3(1) [OF True] utf8_write_bytes [OF p(1), of "utf8_encode us @ bs"]
      by (simp add: p(2) split: prod.splits)
  next
    case False
    then have e: "utf8_encode (u # l # us) = unit_bytes u @ utf8_encode (l # us)"
      and t: "toWellFormed (u # l # us) = lone u # toWellFormed (l # us)"
      by auto
    show ?thesis
      unfolding e t using 3(2) [OF False] utf8_write_unit [of u "utf8_encode (l # us) @ bs"]
      by (simp split: prod.splits)
  qed
qed

lemma utf8_decode_encode: "utf8_decode (utf8_encode T) = toWellFormed T"
  using utf8_write_encode [of T "[]"] by (simp add: utf8_decode_def utf8_end_def)

lemma bc_ok_xor_cipher: "bc_ok xor_cipher"
  by (simp add: bc_ok_def xor_cipher_def xor_block_cancel)

section \<open>The text cipher: there and back\<close>

lemma length_key1 [simp]: "length (Buffer_from_base64 key1) = 32"
  by (simp add: key1_bytes)

lemma length_ivv1 [simp]: "length (Buffer_from_base64 ivv1) = 16"
  by (simp add: ivv1_bytes)

lemma isWellFormed_toWellFormed: "isWellFormed T \<Longrightarrow> toWellFormed T = T"
  by (simp add: isWellFormed_def)

lemma text_round_trip_general:
  assumes "bc_ok bc"
    and "length (Buffer_from_base64 key) = 32" and "length (Buffer_from_base64 ivv) = 16"
  shows "await (nativeEncryptText (QuickCrypto_of bc kdf) key ivv T)
           (nativeDecryptText (QuickCrypto_of bc kdf) key ivv) = Inr (toWellFormed T)"
  using assms
  by (simp add: nativeEncryptText_value nativeDecryptText_value utf8_decode_encode)

text \<open>
  C1, as amended. For every key whose base64 decoding is 32 bytes, every ivv whose base64
  decoding is 16 bytes and every well-formed plaintext string T, the empty one included,
  text-mode encryption succeeds and decrypting its result with the same key and ivv gives
  T back. (What is assumed of the block cipher is that decryption undoes encryption on a
  block.)
\<close>

theorem text_round_trip:
  assumes "bc_ok bc"
    and "length (Buffer_from_base64 key) = 32" and "length (Buffer_from_base64 ivv) = 16"
    and "isWellFormed T"
  shows "await (nativeEncryptText (QuickCrypto_of bc kdf) key ivv T)
           (nativeDecryptText (QuickCrypto_of bc kdf) key ivv) = Inr T"
  using assms
  by (simp add: nativeEncryptText_value nativeDecryptText_value utf8_decode_encode
      isWellFormed_toWellFormed)

lemma isWellFormed_hello: "isWellFormed (js ''Hello, World!'')"
  by (simp add: isWellFormed_def js_def lone_def is_high_surrogate_def is_low_surrogate_def)

theorem text_round_trip_witness:
  "await (nativeEncryptText QC1 key1 ivv1 (js ''Hello, World!''))
     (nativeDecryptText QC1 key1 ivv1) = Inr (js ''Hello, World!'')"
  using text_round_trip [OF bc_ok_xor_cipher length_key1 length_ivv1 isWellFormed_hello,
      of zero_kdf]
  by (simp add: QC1_def)

text \<open>
  C1 as stated fails in two ways. A key of 16 bytes is refused by \<^verbatim>\<open>createCipheriv\<close>,
  so nothing is encrypted; and a plaintext with a lone surrogate comes back with U+FFFD in
  its place, since that is what its UTF-8 encoding holds.
\<close>

theorem text_round_trip_counterexample:
  "nativeEncryptText QC1 ivv1 ivv1 (js ''Hello, World!'') = Inl (RangeError ''Invalid key length'')
   \<and> await (nativeEncryptText QC1 key1 ivv1 [0xD800]) (nativeDecryptText QC1 key1 ivv1)
       = Inr [0xFFFD]"
proof
  show "nativeEncryptText QC1 ivv1 ivv1 (js ''Hello, World!'')
      = Inl (RangeError ''Invalid key length'')"
    by (simp add: nativeEncryptText_def ossl_create_def alg_def)
  have "toWellFormed [0xD800] = [0xFFFD]"
    by (simp add: lone_def is_high_surrogate_def)
  then show "await (nativeEncryptText QC1 key1 ivv1 [0xD800]) (nativeDecryptText QC1 key1 ivv1)
      = Inr [0xFFFD]"
    using text_round_trip_general [OF bc_ok_xor_cipher length_key1 length_ivv1, of zero_kdf "[0xD800]"]
    by (simp add: QC1_def)
qed

lemma cbc_message_Nil:
  "cbc_message bc k iv [] = bc_encrypt bc k (xor_block (replicate 16 16) iv)"
proof -
  have "chunks 16 (replicate 16 (16 :: byte)) = [replicate 16 16]"
    using chunks_concat [of 16 "[replicate 16 (16 :: byte)]"] by simp
  then show ?thesis by (simp add: cbc_message_def pkcs7_pad_def)
qed

text \<open>
  C8. For every key (32 bytes, in base64) and every ivv (16 bytes, in base64), text-mode
  encryption of the zero-length plaintext succeeds and returns a text that is not empty:
  the base64 text, 24 characters long, of one block, the encryption of the padding block
  chained with the initialization vector.
\<close>

theorem empty_text_encrypts_to_padding_block:
  assumes "bc_ok bc"
    and "length (Buffer_from_base64 key) = 32" and "length (Buffer_from_base64 ivv) = 16"
  shows "nativeEncryptText (QuickCrypto_of bc kdf) key ivv []
     = Inr (toString_base64 (bc_encrypt bc (Buffer_from_base64 key)
              (xor_block (replicate 16 16) (Buffer_from_base64 ivv))))
   \<and> length (toString_base64 (bc_encrypt bc (Buffer_from_base64 key)
              (xor_block (replicate 16 16) (Buffer_from_base64 ivv)))) = 24
   \<and> nativeEncryptText (QuickCrypto_of bc kdf) key ivv [] \<noteq> Inr []"
proof -
  have "length (xor_block (replicate 16 16) (Buffer_from_base64 ivv)) = 16"
    using assms(3) by simp
  then have "length (bc_encrypt bc (Buffer_from_base64 key)
      (xor_block (replicate 16 16) (Buffer_from_base64 ivv))) = 16"
    using assms(1,2) by (simp add: bc_ok_def)
  then have "length (toString_base64 (bc_encrypt bc (Buffer_from_base64 key)
      (xor_block (replicate 16 16) (Buffer_from_base64 ivv)))) = 24"
    by (simp add: length_toString_base64)
  then show ?thesis
    using assms(2,3) by (auto simp: nativeEncryptText_value cbc_message_Nil)
qed

theorem empty_text_encrypts_to_padding_block_witness:
  "nativeEncryptText QC1 key1 ivv1 [] = Inr (js ''ERMRFxETER8RExEXERMRDw=='')"
  using empty_text_encrypts_to_padding_block [OF bc_ok_xor_cipher length_key1 length_ivv1,
      of zero_kdf]
  by (simp add: QC1_def key1_bytes ivv1_bytes xor_cipher_def xor_block_def js_def b64char_def
      b64pad_def upt_rec[of _ "numeral _"] replicate_numeral)

section \<open>Key derivation on the two platforms\<close>

lemma nativeGenerateKey_value:
  "nativeGenerateKey (QuickCrypto_of bc kdf) P S
     = Inr (toString_base64 (kdf SHA256 (utf8_encode P) (Buffer_from_base64 S) 100000 32))"
  by (simp add: nativeGenerateKey_def QuickCrypto_of_def node_digest_def defaultIterations_def
      bytesize_def)

lemma browserGenerateKey_value:
  "browserGenerateKey (WebCrypto_of kdf) P S
     = Inr (toString_base64 (kdf SHA256 (utf8_encode P) (Buffer_from_base64 S) 100000 32))"
  by (simp add: browserGenerateKey_def WebCrypto_of_def subtle_importKey_def
      call_deriveBits_def webcrypto_hash_def)


lemma toString_base64_zeros:
  "toString_base64 (replicate 32 0) = js ''AAAAAAAAAAAAAAAAAAAAAAAAAAAAAAAAAAAAAAAAAAA=''"
  by (simp add: replicate_numeral js_def b64char_def b64pad_def)

text \<open>
  C4. For every password string P and base64 salt S, the native and the browser key
  derivation return the same base64 text: that of the derivation function run with
  SHA-256, the UTF-8 bytes of P, the base64-decoded S, 100000 iterations and 32 bytes; and
  when the derivation function returns the 32 bytes asked for, the text is 44 characters
  long and decodes to those 32 bytes.
\<close>

theorem native_and_browser_keys_agree:
  "nativeGenerateKey (QuickCrypto_of bc kdf) P S
     = Inr (toString_base64 (kdf SHA256 (utf8_encode P) (Buffer_from_base64 S) 100000 32))
   \<and> browserGenerateKey (WebCrypto_of kdf) P S = nativeGenerateKey (QuickCrypto_of bc kdf) P S
   \<and> (length (kdf SHA256 (utf8_encode P) (Buffer_from_base64 S) 100000 32) = 32 \<longrightarrow>
        (\<exists>K. nativeGenerateKey (QuickCrypto_of bc kdf) P S = Inr K
           \<and> browserGenerateKey (WebCrypto_of kdf) P S = Inr K
           \<and> length K = 44 \<and> length (Buffer_from_base64 K) = 32))"
  by (simp add: nativeGenerateKey_value browserGenerateKey_value length_toString_base64)

theorem native_and_browser_keys_agree_witness:
  "nativeGenerateKey (QuickCrypto_of xor_cipher zero_kdf) (js ''password'') ivv1
     = Inr (js ''AAAAAAAAAAAAAAAAAAAAAAAAAAAAAAAAAAAAAAAAAAA='')
   \<and> browserGenerateKey (WebCrypto_of zero_kdf) (js ''password'') ivv1
     = Inr (js ''AAAAAAAAAAAAAAAAAAAAAAAAAAAAAAAAAAAAAAAAAAA='')
   \<and> length (Buffer_from_base64 (js ''AAAAAAAAAAAAAAAAAAAAAAAAAAAAAAAAAAAAAAAAAAA='')) = 32"
  using native_and_browser_keys_agree [of xor_cipher zero_kdf "js ''password''" ivv1]
    toString_base64_zeros
  by (auto simp: zero_kdf_def)



lemma byte_decimal_not_Nil [simp]: "byte_decimal b \<noteq> []"
  by (simp add: byte_decimal_def Let_def)



















section \<open>The stream operations, call by call\<close>

subsection \<open>ASCII text through the encoders and decoders\<close>

lemma ascii_bytes_simps [simp]:
  "ascii_bytes [] = []" "ascii_bytes (a @ b) = ascii_bytes a @ ascii_bytes b"
  by (simp_all add: ascii_bytes_def)

lemma ascii_toWellFormed: "ascii s \<Longrightarrow> toWellFormed s = s"
  by (induction s rule: toWellFormed.induct)
     (simp_all add: lone_def is_high_surrogate_def is_low_surrogate_def)

lemma utf8_write_ascii: "ascii s \<Longrightarrow> utf8_write Idle (ascii_bytes s) = (s, Idle)"
  using utf8_write_encode [of s "[]"] by (simp add: utf8_encode_ascii ascii_toWellFormed)

lemma utf8_decode_ascii: "ascii s \<Longrightarrow> utf8_decode (ascii_bytes s) = s"
  using utf8_decode_encode [of s] by (simp add: utf8_encode_ascii ascii_toWellFormed)

lemma ascii_take_drop: "ascii s \<Longrightarrow> ascii (take n s) \<and> ascii (drop n s)"
  using ascii_simps(3) [of "take n s" "drop n s"] by simp

lemma ascii_chunks: "ascii s \<Longrightarrow> list_all ascii (chunks n s)"
proof (induction n s rule: chunks.induct)
  case (1 n xs)
  show ?case
  proof (cases "n = 0 \<or> xs = []")
    case True
    then show ?thesis by (auto simp: chunks.simps)
  next
    case False
    then have "chunks n xs = take n xs # chunks n (drop n xs)"
      by (simp add: chunks_step)
    then show ?thesis using 1 False ascii_take_drop [of xs n] by simp
  qed
qed

lemma getDecoder_Some [simp]:
  "getDecoder (Some (Base64Decoder p)) Base64 = Inr (Base64Decoder p)"
  "getDecoder (Some (Utf8Decoder s)) Utf8 = Inr (Utf8Decoder s)"
  "getDecoder None Base64 = Inr (Base64Decoder [])"
  "getDecoder None Utf8 = Inr (Utf8Decoder Idle)"
  by (simp_all add: getDecoder_def decoder_encoding_def)

subsection \<open>The run of the data chunks\<close>

lemma data_trace_actions:
  "a \<in> set (data_trace ie oe cs rs) \<Longrightarrow> (\<exists>x. a = CipherUpdate x ie oe) \<or> (\<exists>d. a = SinkWrite d)"
  by (induction ie oe cs rs rule: data_trace.induct) auto

lemma data_trace_free [simp]:
  "CipherFinal e \<notin> set (data_trace ie oe cs rs)" "SinkClose \<notin> set (data_trace ie oe cs rs)"
  "Resolve \<notin> set (data_trace ie oe cs rs)" "Reject err \<notin> set (data_trace ie oe cs rs)"
  using data_trace_actions by blast+

lemma encrypt_data_run:
  "foldl (encrypt_handle QC) (c, r) (map OnData cs) =
     (snd (updates QC Utf8 Base64 c cs),
      r\<lparr>sink := writes (sink r) (written (fst (updates QC Utf8 Base64 c cs))),
        trace := trace r @ data_trace Utf8 Base64 cs (fst (updates QC Utf8 Base64 c cs))\<rparr>)"
proof (induction cs arbitrary: c r)
  case Nil
  show ?case by simp
next
  case (Cons x xs)
  show ?case
  proof (cases "update QC c x Utf8 Base64")
    case (Inl e)
    then have "encrypt_handle QC (c, r) (OnData x) = (c, did (CipherUpdate x Utf8 Base64) r)"
      by (simp add: encrypt_handle_def encrypt_onData_def)
    then show ?thesis
      using Inl by (simp add: Cons.IH did_def split: prod.splits)
  next
    case (Inr p)
    then obtain out c1 where u: "update QC c x Utf8 Base64 = Inr (out, c1)"
      by (cases p) simp
    then have "encrypt_handle QC (c, r) (OnData x)
        = (c1, handler_result (sink_write out (did (CipherUpdate x Utf8 Base64) r)))"
      by (simp add: encrypt_handle_def encrypt_onData_def)
    then show ?thesis
      using u by (simp add: Cons.IH sink_write_result did_def split: prod.splits)
  qed
qed

lemma encrypt_handle_trace:
  "\<exists>rest. trace (snd (encrypt_handle QC st ev)) = trace (snd st) @ rest"
  by (cases st; cases ev)
     (auto simp: encrypt_handle_def encrypt_onData_def encrypt_onEnd_def encrypt_onError_def
        sink_write_def sink_close_def await_def Let_def split: sum.splits prod.splits)

lemma encrypt_run_trace:
  "\<exists>rest. trace (snd (foldl (encrypt_handle QC) st evs)) = trace (snd st) @ rest"
proof (induction evs arbitrary: st)
  case Nil
  show ?case by simp
next
  case (Cons ev evs)
  obtain r1 where 1: "trace (snd (encrypt_handle QC st ev)) = trace (snd st) @ r1"
    using encrypt_handle_trace by blast
  obtain r2 where "trace (snd (foldl (encrypt_handle QC) (encrypt_handle QC st ev) evs))
      = trace (snd (encrypt_handle QC st ev)) @ r2"
    using Cons.IH by blast
  then show ?case using 1 by simp
qed

lemma encrypt_end_run:
  assumes f: "final QC c Base64 = Inr (fin, c2)"
    and w: "fin \<noteq> [] \<longrightarrow> write_resolves (sink r) fin"
    and cl: "close_resolves (writes (sink r) (if fin \<noteq> [] then [fin] else []))"
  shows "snd (encrypt_handle QC (c, r) OnEnd) =
     r\<lparr>sink := closed (writes (sink r) (if fin \<noteq> [] then [fin] else [])),
       promise := (if promise r = Pending then Resolved else promise r),
       trace := trace r @ CipherFinal Base64 # (if fin \<noteq> [] then [SinkWrite fin] else [])
                  @ [SinkClose, Resolve]\<rparr>"
proof (cases "fin = []")
  case True
  define r1 where "r1 = did (CipherFinal Base64) r"
  have "close_resolves (sink r1)" using cl True by (simp add: r1_def)
  then have "sink_close r1
      = Inr (r1\<lparr>sink := closed (sink r1), trace := trace r1 @ [SinkClose]\<rparr>)"
    by (rule sink_close_resolves)
  then show ?thesis
    using f True
    by (simp add: encrypt_handle_def encrypt_onEnd_def Let_def await_def r1_def [symmetric])
       (simp add: r1_def resolve_def did_def)
next
  case False
  define r1 where "r1 = did (CipherFinal Base64) r"
  define r2 where "r2 = r1\<lparr>sink := writes (sink r1) [fin], trace := trace r1 @ [SinkWrite fin]\<rparr>"
  have "write_resolves (sink r1) fin" using w False by (simp add: r1_def)
  then have 1: "sink_write fin r1 = Inr r2"
    unfolding r2_def by (rule sink_write_resolves)
  have "close_resolves (sink r2)" using cl False by (simp add: r2_def r1_def)
  then have 2: "sink_close r2
      = Inr (r2\<lparr>sink := closed (sink r2), trace := trace r2 @ [SinkClose]\<rparr>)"
    by (rule sink_close_resolves)
  show ?thesis
    using f False
    by (simp add: encrypt_handle_def encrypt_onEnd_def Let_def await_def r1_def [symmetric] 1 2)
       (simp add: r2_def r1_def resolve_def did_def)
qed

lemma encrypt_error_run:
  "snd (encrypt_handle QC (c, r) (OnError err)) =
     r\<lparr>promise := (if promise r = Pending then Rejected err else promise r),
       trace := trace r @ [ConsoleError err, Reject err]\<rparr>"
  by (simp add: encrypt_handle_def encrypt_onError_def reject_def did_def)

lemma nativeEncryptStream_events:
  assumes "createCipheriv QC = Some mk"
    and "mk alg (Buffer_from_base64 key) (Buffer_from_base64 ivv) = Inr c"
    and "rs_open inS Base64 (config_bufferSize b (rs_bufferSize inS)) = map OnData cs @ evs"
  shows "nativeEncryptStream QC key ivv inS outS b =
     snd (foldl (encrypt_handle QC)
       (snd (updates QC Utf8 Base64 c cs),
        \<lparr>source = inS\<lparr>rs_bufferSize := config_bufferSize b (rs_bufferSize inS),
                      rs_encoding := Base64\<rparr>,
         sink = writes (outS\<lparr>ws_encoding := Utf8, ws_append := False\<rparr>)
                  (written (fst (updates QC Utf8 Base64 c cs))),
         promise = Pending,
         trace = data_trace Utf8 Base64 cs (fst (updates QC Utf8 Base64 c cs))\<rparr>)
       evs)"
  by (simp add: nativeEncryptStream_def encrypt_init_Inr [OF assms(1,2)] opened_def assms(3)
      encrypt_data_run)

lemma decrypt_data_run:
  "foldl (decrypt_handle QC) (c, r) (map OnData cs) =
     (snd (updates QC Base64 Utf8 c cs),
      r\<lparr>sink := writes (sink r) (written (fst (updates QC Base64 Utf8 c cs))),
        trace := trace r @ data_trace Base64 Utf8 cs (fst (updates QC Base64 Utf8 c cs))\<rparr>)"
proof (induction cs arbitrary: c r)
  case Nil
  show ?case by simp
next
  case (Cons x xs)
  show ?case
  proof (cases "update QC c x Base64 Utf8")
    case (Inl e)
    then have "decrypt_handle QC (c, r) (OnData x) = (c, did (CipherUpdate x Base64 Utf8) r)"
      by (simp add: decrypt_handle_def decrypt_onData_def)
    then show ?thesis
      using Inl by (simp add: Cons.IH did_def split: prod.splits)
  next
    case (Inr p)
    then obtain out c1 where u: "update QC c x Base64 Utf8 = Inr (out, c1)"
      by (cases p) simp
    then have "decrypt_handle QC (c, r) (OnData x)
        = (c1, handler_result (sink_write out (did (CipherUpdate x Base64 Utf8) r)))"
      by (simp add: decrypt_handle_def decrypt_onData_def)
    then show ?thesis
      using u by (simp add: Cons.IH sink_write_result did_def split: prod.splits)
  qed
qed

lemma decrypt_handle_trace:
  "\<exists>rest. trace (snd (decrypt_handle QC st ev)) = trace (snd st) @ rest"
  by (cases st; cases ev)
     (auto simp: decrypt_handle_def decrypt_onData_def decrypt_onEnd_def decrypt_onError_def
        sink_write_def sink_close_def await_def Let_def split: sum.splits prod.splits)

lemma decrypt_run_trace:
  "\<exists>rest. trace (snd (foldl (decrypt_handle QC) st evs)) = trace (snd st) @ rest"
proof (induction evs arbitrary: st)
  case Nil
  show ?case by simp
next
  case (Cons ev evs)
  obtain r1 where 1: "trace (snd (decrypt_handle QC st ev)) = trace (snd st) @ r1"
    using decrypt_handle_trace by blast
  obtain r2 where "trace (snd (foldl (decrypt_handle QC) (decrypt_handle QC st ev) evs))
      = trace (snd (decrypt_handle QC st ev)) @ r2"
    using Cons.IH by blast
  then show ?case using 1 by simp
qed

lemma decrypt_end_run:
  assumes f: "final QC c Utf8 = Inr (fin, c2)"
    and w: "fin \<noteq> [] \<longrightarrow> write_resolves (sink r) fin"
    and cl: "close_resolves (writes (sink r) (if fin \<noteq> [] then [fin] else []))"
  shows "snd (decrypt_handle QC (c, r) OnEnd) =
     r\<lparr>sink := closed (writes (sink r) (if fin \<noteq> [] then [fin] else [])),
       promise := (if promise r = Pending then Resolved else promise r),
       trace := trace r @ CipherFinal Utf8 # (if fin \<noteq> [] then [SinkWrite fin] else [])
                  @ [SinkClose, Resolve]\<rparr>"
proof (cases "fin = []")
  case True
  define r1 where "r1 = did (CipherFinal Utf8) r"
  have "close_resolves (sink r1)" using cl True by (simp add: r1_def)
  then have "sink_close r1
      = Inr (r1\<lparr>sink := closed (sink r1), trace := trace r1 @ [SinkClose]\<rparr>)"
    by (rule sink_close_resolves)
  then show ?thesis
    using f True
    by (simp add: decrypt_handle_def decrypt_onEnd_def Let_def await_def r1_def [symmetric])
       (simp add: r1_def resolve_def did_def)
next
  case False
  define r1 where "r1 = did (CipherFinal Utf8) r"
  define r2 where "r2 = r1\<lparr>sink := writes (sink r1) [fin], trace := trace r1 @ [SinkWrite fin]\<rparr>"
  have "write_resolves (sink r1) fin" using w False by (simp add: r1_def)
  then have 1: "sink_write fin r1 = Inr r2"
    unfolding r2_def by (rule sink_write_resolves)
  have "close_resolves (sink r2)" using cl False by (simp add: r2_def r1_def)
  then have 2: "sink_close r2
      = Inr (r2\<lparr>sink := closed (sink r2), trace := trace r2 @ [SinkClose]\<rparr>)"
    by (rule sink_close_resolves)
  show ?thesis
    using f False
    by (simp add: decrypt_handle_def decrypt_onEnd_def Let_def await_def r1_def [symmetric] 1 2)
       (simp add: r2_def r1_def resolve_def did_def)
qed

lemma decrypt_error_run:
  "snd (decrypt_handle QC (c, r) (OnError err)) =
     r\<lparr>promise := (if promise r = Pending then Rejected err else promise r),
       trace := trace r @ [ConsoleError err, Reject err]\<rparr>"
  by (simp add: decrypt_handle_def decrypt_onError_def reject_def did_def)

lemma nativeDecryptStream_events:
  assumes "createDecipheriv QC = Some mk"
    and "mk alg (Buffer_from_base64 key) (Buffer_from_base64 ivv) = Inr c"
    and "rs_open inS Utf8 (config_bufferSize b (rs_bufferSize inS)) = map OnData cs @ evs"
  shows "nativeDecryptStream QC key ivv inS outS b =
     snd (foldl (decrypt_handle QC)
       (snd (updates QC Base64 Utf8 c cs),
        \<lparr>source = inS\<lparr>rs_bufferSize := config_bufferSize b (rs_bufferSize inS),
                      rs_encoding := Utf8\<rparr>,
         sink = writes (outS\<lparr>ws_encoding := Base64, ws_append := False\<rparr>)
                  (written (fst (updates QC Base64 Utf8 c cs))),
         promise = Pending,
         trace = data_trace Base64 Utf8 cs (fst (updates QC Base64 Utf8 c cs))\<rparr>)
       evs)"
  by (simp add: nativeDecryptStream_def decrypt_init_Inr [OF assms(1,2)] opened_def assms(3)
      decrypt_data_run)

lemma encrypt_error_op:
  assumes "createCipheriv QC = Some mk"
    and "mk alg (Buffer_from_base64 key) (Buffer_from_base64 ivv) = Inr c"
    and "rs_open inS Base64 (config_bufferSize b (rs_bufferSize inS)) = map OnData cs @ [OnError err]"
  shows "promise (nativeEncryptStream QC key ivv inS outS b) = Rejected err
     \<and> SinkClose \<notin> set (trace (nativeEncryptStream QC key ivv inS outS b))
     \<and> sink (nativeEncryptStream QC key ivv inS outS b)
         = writes (outS\<lparr>ws_encoding := Utf8, ws_append := False\<rparr>)
             (written (fst (updates QC Utf8 Base64 c cs)))
     \<and> trace (nativeEncryptStream QC key ivv inS outS b)
         = data_trace Utf8 Base64 cs (fst (updates QC Utf8 Base64 c cs))
             @ [ConsoleError err, Reject err]"
  by (simp add: nativeEncryptStream_events [OF assms] encrypt_error_run)

lemma decrypt_error_op:
  assumes "createDecipheriv QC = Some mk"
    and "mk alg (Buffer_from_base64 key) (Buffer_from_base64 ivv) = Inr c"
    and "rs_open inS Utf8 (config_bufferSize b (rs_bufferSize inS)) = map OnData cs @ [OnError err]"
  shows "promise (nativeDecryptStream QC key ivv inS outS b) = Rejected err
     \<and> SinkClose \<notin> set (trace (nativeDecryptStream QC key ivv inS outS b))
     \<and> sink (nativeDecryptStream QC key ivv inS outS b)
         = writes (outS\<lparr>ws_encoding := Base64, ws_append := False\<rparr>)
             (written (fst (updates QC Base64 Utf8 c cs)))
     \<and> trace (nativeDecryptStream QC key ivv inS outS b)
         = data_trace Base64 Utf8 cs (fst (updates QC Base64 Utf8 c cs))
             @ [ConsoleError err, Reject err]"
  by (simp add: nativeDecryptStream_events [OF assms] decrypt_error_run)

text \<open>
  C7. When the source of a stream operation delivers data chunks and then signals an
  error, the operation (its cipher context constructed) rejects with exactly that error.
  It does not close the sink: no \<^verbatim>\<open>close\<close> is among its calls, which are the updates
  and writes for the chunks followed by the logging of the error and the rejection. The
  sink is left as the writes for the chunks made it, nothing is taken back. This holds for
  \<^verbatim>\<open>nativeEncryptStream\<close> and \<^verbatim>\<open>nativeDecryptStream\<close>, for every provider, every
  source and every sink.
\<close>

theorem source_error_rejects:
  "(\<forall>mk c. createCipheriv QC = Some mk
        \<and> mk alg (Buffer_from_base64 key) (Buffer_from_base64 ivv) = Inr c
        \<and> rs_open inS Base64 (config_bufferSize bufferSize (rs_bufferSize inS))
            = map OnData cs @ [OnError err]
      \<longrightarrow> promise (nativeEncryptStream QC key ivv inS outS bufferSize) = Rejected err
        \<and> SinkClose \<notin> set (trace (nativeEncryptStream QC key ivv inS outS bufferSize))
        \<and> sink (nativeEncryptStream QC key ivv inS outS bufferSize)
            = writes (outS\<lparr>ws_encoding := Utf8, ws_append := False\<rparr>)
                (written (fst (updates QC Utf8 Base64 c cs)))
        \<and> trace (nativeEncryptStream QC key ivv inS outS bufferSize)
            = data_trace Utf8 Base64 cs (fst (updates QC Utf8 Base64 c cs))
                @ [ConsoleError err, Reject err])
   \<and> (\<forall>mk c. createDecipheriv QC = Some mk
        \<and> mk alg (Buffer_from_base64 key) (Buffer_from_base64 ivv) = Inr c
        \<and> rs_open inS Utf8 (config_bufferSize bufferSize (rs_bufferSize inS))
            = map OnData cs @ [OnError err]
      \<longrightarrow> promise (nativeDecryptStream QC key ivv inS outS bufferSize) = Rejected err
        \<and> SinkClose \<notin> set (trace (nativeDecryptStream QC key ivv inS outS bufferSize))
        \<and> sink (nativeDecryptStream QC key ivv inS outS bufferSize)
            = writes (outS\<lparr>ws_encoding := Base64, ws_append := False\<rparr>)
                (written (fst (updates QC Base64 Utf8 c cs)))
        \<and> trace (nativeDecryptStream QC key ivv inS outS bufferSize)
            = data_trace Base64 Utf8 cs (fst (updates QC Base64 Utf8 c cs))
                @ [ConsoleError err, Reject err])"
proof (intro conjI allI impI)
  fix mk c
  assume "createCipheriv QC = Some mk
        \<and> mk alg (Buffer_from_base64 key) (Buffer_from_base64 ivv) = Inr c
        \<and> rs_open inS Base64 (config_bufferSize bufferSize (rs_bufferSize inS))
            = map OnData cs @ [OnError err]"
  then have a: "createCipheriv QC = Some mk"
    "mk alg (Buffer_from_base64 key) (Buffer_from_base64 ivv) = Inr c"
    "rs_open inS Base64 (config_bufferSize bufferSize (rs_bufferSize inS))
            = map OnData cs @ [OnError err]"
    by simp_all
  note r = encrypt_error_op [OF a, of outS]
  show "promise (nativeEncryptStream QC key ivv inS outS bufferSize) = Rejected err"
    using r by simp
  show "SinkClose \<notin> set (trace (nativeEncryptStream QC key ivv inS outS bufferSize))"
    using r by simp
  show "sink (nativeEncryptStream QC key ivv inS outS bufferSize)
            = writes (outS\<lparr>ws_encoding := Utf8, ws_append := False\<rparr>)
                (written (fst (updates QC Utf8 Base64 c cs)))"
    using r by simp
  show "trace (nativeEncryptStream QC key ivv inS outS bufferSize)
            = data_trace Utf8 Base64 cs (fst (updates QC Utf8 Base64 c cs))
                @ [ConsoleError err, Reject err]"
    using r by simp
next
  fix mk c
  assume "createDecipheriv QC = Some mk
        \<and> mk alg (Buffer_from_base64 key) (Buffer_from_base64 ivv) = Inr c
        \<and> rs_open inS Utf8 (config_bufferSize bufferSize (rs_bufferSize inS))
            = map OnData cs @ [OnError err]"
  then have a: "createDecipheriv QC = Some mk"
    "mk alg (Buffer_from_base64 key) (Buffer_from_base64 ivv) = Inr c"
    "rs_open inS Utf8 (config_bufferSize bufferSize (rs_bufferSize inS))
            = map OnData cs @ [OnError err]"
    by simp_all
  note r = decrypt_error_op [OF a, of outS]
  show "promise (nativeDecryptStream QC key ivv inS outS bufferSize) = Rejected err"
    using r by simp
  show "SinkClose \<notin> set (trace (nativeDecryptStream QC key ivv inS outS bufferSize))"
    using r by simp
  show "sink (nativeDecryptStream QC key ivv inS outS bufferSize)
            = writes (outS\<lparr>ws_encoding := Base64, ws_append := False\<rparr>)
                (written (fst (updates QC Base64 Utf8 c cs)))"
    using r by simp
  show "trace (nativeDecryptStream QC key ivv inS outS bufferSize)
            = data_trace Base64 Utf8 cs (fst (updates QC Base64 Utf8 c cs))
                @ [ConsoleError err, Reject err]"
    using r by simp
qed

lemma FailingReadStream_events:
  "rs_open FailingReadStream enc (config_bufferSize None (rs_bufferSize FailingReadStream))
     = map OnData [js ''QQ==''] @ [OnError (Error ''read failed'')]"
  by (simp add: FailingReadStream_def)

lemma update1_enc:
  "ossl_update xor_cipher (ctx1 True) (js ''QQ=='') Utf8 Base64
     = Inr ([], (ctx1 True)\<lparr>cx_buf := [81, 81, 61, 61], cx_decoder := Some (Base64Decoder [])\<rparr>)"
  by (simp add: ossl_update_def ctx1_def block_update_def input_bytes_def getDecoder_def
      decoder_write_def js_def unit_bytes_def utf8_bytes_def is_high_surrogate_def
      is_low_surrogate_def Let_def)

lemma update1_dec:
  "ossl_update xor_cipher (ctx1 False) (js ''QQ=='') Base64 Utf8
     = Inr ([], (ctx1 False)\<lparr>cx_buf := [65], cx_decoder := Some (Utf8Decoder Idle)\<rparr>)"
  by (simp add: ossl_update_def ctx1_def block_update_def input_bytes_def getDecoder_def
      decoder_write_def js_def Buffer_from_base64_def b64pad_def List.map_filter_def unbase64_def
      Let_def)

theorem source_error_rejects_witness:
  "promise (nativeEncryptStream QC1 key1 ivv1 FailingReadStream MockWriteStream None)
     = Rejected (Error ''read failed'')
   \<and> trace (nativeEncryptStream QC1 key1 ivv1 FailingReadStream MockWriteStream None)
     = [CipherUpdate (js ''QQ=='') Utf8 Base64, SinkWrite [],
        ConsoleError (Error ''read failed''), Reject (Error ''read failed'')]
   \<and> ws_data (sink (nativeEncryptStream QC1 key1 ivv1 FailingReadStream MockWriteStream None))
     = [[]]
   \<and> promise (nativeDecryptStream QC1 key1 ivv1 FailingReadStream MockWriteStream None)
     = Rejected (Error ''read failed'')
   \<and> trace (nativeDecryptStream QC1 key1 ivv1 FailingReadStream MockWriteStream None)
     = [CipherUpdate (js ''QQ=='') Base64 Utf8, SinkWrite [],
        ConsoleError (Error ''read failed''), Reject (Error ''read failed'')]"
proof -
  note t = source_error_rejects [where QC = QC1 and key = key1 and ivv = ivv1
      and inS = FailingReadStream and outS = MockWriteStream and bufferSize = None
      and cs = "[js ''QQ=='']" and err = "Error ''read failed''"]
  have e: "promise (nativeEncryptStream QC1 key1 ivv1 FailingReadStream MockWriteStream None)
        = Rejected (Error ''read failed'')
     \<and> SinkClose \<notin> set (trace (nativeEncryptStream QC1 key1 ivv1 FailingReadStream
          MockWriteStream None))
     \<and> sink (nativeEncryptStream QC1 key1 ivv1 FailingReadStream MockWriteStream None)
        = writes (MockWriteStream\<lparr>ws_encoding := Utf8, ws_append := False\<rparr>)
            (written (fst (updates QC1 Utf8 Base64 (ctx1 True) [js ''QQ=='']))) 
     \<and> trace (nativeEncryptStream QC1 key1 ivv1 FailingReadStream MockWriteStream None)
        = data_trace Utf8 Base64 [js ''QQ==''] (fst (updates QC1 Utf8 Base64 (ctx1 True) [js ''QQ=='']))
            @ [ConsoleError (Error ''read failed''), Reject (Error ''read failed'')]"
    by (rule t [THEN conjunct1, rule_format, of "ossl_create True" "ctx1 True"])
       (simp add: create1 FailingReadStream_events)
  have d: "promise (nativeDecryptStream QC1 key1 ivv1 FailingReadStream MockWriteStream None)
        = Rejected (Error ''read failed'')
     \<and> SinkClose \<notin> set (trace (nativeDecryptStream QC1 key1 ivv1 FailingReadStream
          MockWriteStream None))
     \<and> sink (nativeDecryptStream QC1 key1 ivv1 FailingReadStream MockWriteStream None)
        = writes (MockWriteStream\<lparr>ws_encoding := Base64, ws_append := False\<rparr>)
            (written (fst (updates QC1 Base64 Utf8 (ctx1 False) [js ''QQ=='']))) 
     \<and> trace (nativeDecryptStream QC1 key1 ivv1 FailingReadStream MockWriteStream None)
        = data_trace Base64 Utf8 [js ''QQ==''] (fst (updates QC1 Base64 Utf8 (ctx1 False) [js ''QQ=='']))
            @ [ConsoleError (Error ''read failed''), Reject (Error ''read failed'')]"
    by (rule t [THEN conjunct2, rule_format, of "ossl_create False" "ctx1 False"])
       (simp add: create1 FailingReadStream_events)
  show ?thesis
    using e d
    by (simp add: update1_enc update1_dec MockWriteStream_def MockWriteStream_write_def)
qed

lemma encrypt_end_op:
  assumes "createCipheriv QC = Some mk"
    and "mk alg (Buffer_from_base64 key) (Buffer_from_base64 ivv) = Inr c"
    and "rs_open inS Base64 (config_bufferSize b (rs_bufferSize inS)) = map OnData cs @ [OnEnd]"
    and f: "final QC (snd (updates QC Utf8 Base64 c cs)) Base64 = Inr (fin, c2)"
    and w: "fin \<noteq> [] \<longrightarrow>
        write_resolves (writes (outS\<lparr>ws_encoding := Utf8, ws_append := False\<rparr>)
          (written (fst (updates QC Utf8 Base64 c cs)))) fin"
    and cl: "close_resolves (writes (outS\<lparr>ws_encoding := Utf8, ws_append := False\<rparr>)
          (written (fst (updates QC Utf8 Base64 c cs)) @ (if fin \<noteq> [] then [fin] else [])))"
  shows "trace (nativeEncryptStream QC key ivv inS outS b)
         = data_trace Utf8 Base64 cs (fst (updates QC Utf8 Base64 c cs))
             @ CipherFinal Base64 # (if fin \<noteq> [] then [SinkWrite fin] else [])
             @ [SinkClose, Resolve]
     \<and> count_list (trace (nativeEncryptStream QC key ivv inS outS b)) (CipherFinal Base64) = 1
     \<and> promise (nativeEncryptStream QC key ivv inS outS b) = Resolved"
proof -
  define r where "r = \<lparr>source = inS\<lparr>rs_bufferSize := config_bufferSize b (rs_bufferSize inS),
                      rs_encoding := Base64\<rparr>,
         sink = writes (outS\<lparr>ws_encoding := Utf8, ws_append := False\<rparr>)
                  (written (fst (updates QC Utf8 Base64 c cs))),
         promise = Pending,
         trace = data_trace Utf8 Base64 cs (fst (updates QC Utf8 Base64 c cs))\<rparr>"
  have op: "nativeEncryptStream QC key ivv inS outS b
      = snd (encrypt_handle QC (snd (updates QC Utf8 Base64 c cs), r) OnEnd)"
    by (simp add: nativeEncryptStream_events [OF assms(1,2,3)] r_def)
  have w': "fin \<noteq> [] \<longrightarrow> write_resolves (sink r) fin"
    using w by (simp add: r_def)
  have cl': "close_resolves (writes (sink r) (if fin \<noteq> [] then [fin] else []))"
    using cl by (simp add: r_def writes_append)
  have t: "trace (nativeEncryptStream QC key ivv inS outS b)
         = data_trace Utf8 Base64 cs (fst (updates QC Utf8 Base64 c cs))
             @ CipherFinal Base64 # (if fin \<noteq> [] then [SinkWrite fin] else [])
             @ [SinkClose, Resolve]"
    and p: "promise (nativeEncryptStream QC key ivv inS outS b) = Resolved"
    unfolding op encrypt_end_run [OF f w' cl'] by (simp_all add: r_def)
  have "count_list (data_trace Utf8 Base64 cs (fst (updates QC Utf8 Base64 c cs)))
      (CipherFinal Base64) = 0"
    by (simp add: count_list_0_iff)
  then have "count_list (trace (nativeEncryptStream QC key ivv inS outS b)) (CipherFinal Base64)
      = 1"
    unfolding t by simp
  then show ?thesis using t p by simp
qed

lemma decrypt_end_op:
  assumes "createDecipheriv QC = Some mk"
    and "mk alg (Buffer_from_base64 key) (Buffer_from_base64 ivv) = Inr c"
    and "rs_open inS Utf8 (config_bufferSize b (rs_bufferSize inS)) = map OnData cs @ [OnEnd]"
    and f: "final QC (snd (updates QC Base64 Utf8 c cs)) Utf8 = Inr (fin, c2)"
    and w: "fin \<noteq> [] \<longrightarrow>
        write_resolves (writes (outS\<lparr>ws_encoding := Base64, ws_append := False\<rparr>)
          (written (fst (updates QC Base64 Utf8 c cs)))) fin"
    and cl: "close_resolves (writes (outS\<lparr>ws_encoding := Base64, ws_append := False\<rparr>)
          (written (fst (updates QC Base64 Utf8 c cs)) @ (if fin \<noteq> [] then [fin] else [])))"
  shows "trace (nativeDecryptStream QC key ivv inS outS b)
         = data_trace Base64 Utf8 cs (fst (updates QC Base64 Utf8 c cs))
             @ CipherFinal Utf8 # (if fin \<noteq> [] then [SinkWrite fin] else [])
             @ [SinkClose, Resolve]
     \<and> count_list (trace (nativeDecryptStream QC key ivv inS outS b)) (CipherFinal Utf8) = 1
     \<and> promise (nativeDecryptStream QC key ivv inS outS b) = Resolved"
proof -
  define r where "r = \<lparr>source = inS\<lparr>rs_bufferSize := config_bufferSize b (rs_bufferSize inS),
                      rs_encoding := Utf8\<rparr>,
         sink = writes (outS\<lparr>ws_encoding := Base64, ws_append := False\<rparr>)
                  (written (fst (updates QC Base64 Utf8 c cs))),
         promise = Pending,
         trace = data_trace Base64 Utf8 cs (fst (updates QC Base64 Utf8 c cs))\<rparr>"
  have op: "nativeDecryptStream QC key ivv inS outS b
      = snd (decrypt_handle QC (snd (updates QC Base64 Utf8 c cs), r) OnEnd)"
    by (simp add: nativeDecryptStream_events [OF assms(1,2,3)] r_def)
  have w': "fin \<noteq> [] \<longrightarrow> write_resolves (sink r) fin"
    using w by (simp add: r_def)
  have cl': "close_resolves (writes (sink r) (if fin \<noteq> [] then [fin] else []))"
    using cl by (simp add: r_def writes_append)
  have t: "trace (nativeDecryptStream QC key ivv inS outS b)
         = data_trace Base64 Utf8 cs (fst (updates QC Base64 Utf8 c cs))
             @ CipherFinal Utf8 # (if fin \<noteq> [] then [SinkWrite fin] else [])
             @ [SinkClose, Resolve]"
    and p: "promise (nativeDecryptStream QC key ivv inS outS b) = Resolved"
    unfolding op decrypt_end_run [OF f w' cl'] by (simp_all add: r_def)
  have "count_list (data_trace Base64 Utf8 cs (fst (updates QC Base64 Utf8 c cs)))
      (CipherFinal Utf8) = 0"
    by (simp add: count_list_0_iff)
  then have "count_list (trace (nativeDecryptStream QC key ivv inS outS b)) (CipherFinal Utf8)
      = 1"
    unfolding t by simp
  then show ?thesis using t p by simp
qed






lemma MockWriteStream_resolves [simp]:
  "write_resolves (writes (MockWriteStream\<lparr>ws_encoding := e, ws_append := a\<rparr>) xs) d"
  "close_resolves (writes (MockWriteStream\<lparr>ws_encoding := e, ws_append := a\<rparr>) xs)"
  "write_resolves (MockWriteStream\<lparr>ws_encoding := e, ws_append := a\<rparr>) d"
  "close_resolves (MockWriteStream\<lparr>ws_encoding := e, ws_append := a\<rparr>)"
  by (simp_all add: write_resolves_def close_resolves_def MockWriteStream_def
      MockWriteStream_write_def MockWriteStream_close_def)



lemma encrypt_chunks_op:
  assumes "createCipheriv QC = Some mk"
    and "mk alg (Buffer_from_base64 key) (Buffer_from_base64 ivv) = Inr c"
    and "rs_open inS Base64 (config_bufferSize b (rs_bufferSize inS)) = map OnData cs @ evs"
  shows "\<exists>rest. trace (nativeEncryptStream QC key ivv inS outS b)
           = data_trace Utf8 Base64 cs (fst (updates QC Utf8 Base64 c cs)) @ rest"
    and "evs = [] \<longrightarrow> sink (nativeEncryptStream QC key ivv inS outS b)
           = writes (outS\<lparr>ws_encoding := Utf8, ws_append := False\<rparr>)
               (written (fst (updates QC Utf8 Base64 c cs)))"
proof -
  define r where "r = \<lparr>source = inS\<lparr>rs_bufferSize := config_bufferSize b (rs_bufferSize inS),
                      rs_encoding := Base64\<rparr>,
         sink = writes (outS\<lparr>ws_encoding := Utf8, ws_append := False\<rparr>)
                  (written (fst (updates QC Utf8 Base64 c cs))),
         promise = Pending,
         trace = data_trace Utf8 Base64 cs (fst (updates QC Utf8 Base64 c cs))\<rparr>"
  have op: "nativeEncryptStream QC key ivv inS outS b
      = snd (foldl (encrypt_handle QC) (snd (updates QC Utf8 Base64 c cs), r) evs)"
    by (simp add: nativeEncryptStream_events [OF assms] r_def)
  obtain rest where "trace (snd (foldl (encrypt_handle QC) (snd (updates QC Utf8 Base64 c cs), r) evs))
      = trace (snd (snd (updates QC Utf8 Base64 c cs), r)) @ rest"
    using encrypt_run_trace by blast
  then show "\<exists>rest. trace (nativeEncryptStream QC key ivv inS outS b)
           = data_trace Utf8 Base64 cs (fst (updates QC Utf8 Base64 c cs)) @ rest"
    unfolding op by (simp add: r_def)
  show "evs = [] \<longrightarrow> sink (nativeEncryptStream QC key ivv inS outS b)
           = writes (outS\<lparr>ws_encoding := Utf8, ws_append := False\<rparr>)
               (written (fst (updates QC Utf8 Base64 c cs)))"
    unfolding op by (simp add: r_def)
qed

lemma decrypt_chunks_op:
  assumes "createDecipheriv QC = Some mk"
    and "mk alg (Buffer_from_base64 key) (Buffer_from_base64 ivv) = Inr c"
    and "rs_open inS Utf8 (config_bufferSize b (rs_bufferSize inS)) = map OnData cs @ evs"
  shows "\<exists>rest. trace (nativeDecryptStream QC key ivv inS outS b)
           = data_trace Base64 Utf8 cs (fst (updates QC Base64 Utf8 c cs)) @ rest"
    and "evs = [] \<longrightarrow> sink (nativeDecryptStream QC key ivv inS outS b)
           = writes (outS\<lparr>ws_encoding := Base64, ws_append := False\<rparr>)
               (written (fst (updates QC Base64 Utf8 c cs)))"
proof -
  define r where "r = \<lparr>source = inS\<lparr>rs_bufferSize := config_bufferSize b (rs_bufferSize inS),
                      rs_encoding := Utf8\<rparr>,
         sink = writes (outS\<lparr>ws_encoding := Base64, ws_append := False\<rparr>)
                  (written (fst (updates QC Base64 Utf8 c cs))),
         promise = Pending,
         trace = data_trace Base64 Utf8 cs (fst (updates QC Base64 Utf8 c cs))\<rparr>"
  have op: "nativeDecryptStream QC key ivv inS outS b
      = snd (foldl (decrypt_handle QC) (snd (updates QC Base64 Utf8 c cs), r) evs)"
    by (simp add: nativeDecryptStream_events [OF assms] r_def)
  obtain rest where "trace (snd (foldl (decrypt_handle QC) (snd (updates QC Base64 Utf8 c cs), r) evs))
      = trace (snd (snd (updates QC Base64 Utf8 c cs), r)) @ rest"
    using decrypt_run_trace by blast
  then show "\<exists>rest. trace (nativeDecryptStream QC key ivv inS outS b)
           = data_trace Base64 Utf8 cs (fst (updates QC Base64 Utf8 c cs)) @ rest"
    unfolding op by (simp add: r_def)
  show "evs = [] \<longrightarrow> sink (nativeDecryptStream QC key ivv inS outS b)
           = writes (outS\<lparr>ws_encoding := Base64, ws_append := False\<rparr>)
               (written (fst (updates QC Base64 Utf8 c cs)))"
    unfolding op by (simp add: r_def)
qed

text \<open>
  C5, as amended. Once the cipher context is constructed, \<^verbatim>\<open>nativeEncryptStream\<close>
  leaves the source reading base64 and the sink writing UTF-8 text, and
  \<^verbatim>\<open>nativeDecryptStream\<close> leaves the source reading UTF-8 text and the sink writing
  base64. Each arriving chunk is passed to the cipher as it arrived: on encryption the
  calls for the chunks are, for each chunk in turn, \<^verbatim>\<open>update\<close> on that very chunk as
  UTF-8 text input with base64 output (the base64 text itself is what is encrypted, it is
  not decoded from base64) and then a write of what that call returned; on decryption
  likewise with the chunk as base64 input and UTF-8 text output. While the source has
  delivered only chunks, the sink is what these writes make of it.
\<close>

theorem stream_encodings:
  "(\<forall>mk c. createCipheriv QC = Some mk
       \<and> mk alg (Buffer_from_base64 key) (Buffer_from_base64 ivv) = Inr c
     \<longrightarrow> rs_encoding (source (nativeEncryptStream QC key ivv inS outS bufferSize)) = Base64
         \<and> ws_encoding (sink (nativeEncryptStream QC key ivv inS outS bufferSize)) = Utf8)
   \<and> (\<forall>mk c. createDecipheriv QC = Some mk
       \<and> mk alg (Buffer_from_base64 key) (Buffer_from_base64 ivv) = Inr c
     \<longrightarrow> rs_encoding (source (nativeDecryptStream QC key ivv inS outS bufferSize)) = Utf8
         \<and> ws_encoding (sink (nativeDecryptStream QC key ivv inS outS bufferSize)) = Base64)
   \<and> (\<forall>mk c cs evs. createCipheriv QC = Some mk
       \<and> mk alg (Buffer_from_base64 key) (Buffer_from_base64 ivv) = Inr c
       \<and> rs_open inS Base64 (config_bufferSize bufferSize (rs_bufferSize inS))
           = map OnData cs @ evs
     \<longrightarrow> (\<exists>rest. trace (nativeEncryptStream QC key ivv inS outS bufferSize)
            = data_trace Utf8 Base64 cs (fst (updates QC Utf8 Base64 c cs)) @ rest)
         \<and> (evs = [] \<longrightarrow> sink (nativeEncryptStream QC key ivv inS outS bufferSize)
            = writes (outS\<lparr>ws_encoding := Utf8, ws_append := False\<rparr>)
                (written (fst (updates QC Utf8 Base64 c cs)))))
   \<and> (\<forall>mk c cs evs. createDecipheriv QC = Some mk
       \<and> mk alg (Buffer_from_base64 key) (Buffer_from_base64 ivv) = Inr c
       \<and> rs_open inS Utf8 (config_bufferSize bufferSize (rs_bufferSize inS))
           = map OnData cs @ evs
     \<longrightarrow> (\<exists>rest. trace (nativeDecryptStream QC key ivv inS outS bufferSize)
            = data_trace Base64 Utf8 cs (fst (updates QC Base64 Utf8 c cs)) @ rest)
         \<and> (evs = [] \<longrightarrow> sink (nativeDecryptStream QC key ivv inS outS bufferSize)
            = writes (outS\<lparr>ws_encoding := Base64, ws_append := False\<rparr>)
                (written (fst (updates QC Base64 Utf8 c cs)))))"
proof (intro conjI allI impI; (elim conjE)?)
  fix mk c
  assume a: "createCipheriv QC = Some mk"
    "mk alg (Buffer_from_base64 key) (Buffer_from_base64 ivv) = Inr c"
  then have i: "encrypt_init QC key ivv inS outS bufferSize =
     Inr (c, \<lparr>source = inS\<lparr>rs_bufferSize := config_bufferSize bufferSize (rs_bufferSize inS),
                           rs_encoding := Base64\<rparr>,
              sink = outS\<lparr>ws_encoding := Utf8, ws_append := False\<rparr>,
              promise = Pending, trace = []\<rparr>)"
    by (simp add: encrypt_init_Inr)
  show "rs_encoding (source (nativeEncryptStream QC key ivv inS outS bufferSize)) = Base64"
    by (simp add: nativeEncryptStream_def i encrypt_run_frame)
  show "ws_encoding (sink (nativeEncryptStream QC key ivv inS outS bufferSize)) = Utf8"
    by (simp add: nativeEncryptStream_def i encrypt_run_frame)
next
  fix mk c
  assume a: "createDecipheriv QC = Some mk"
    "mk alg (Buffer_from_base64 key) (Buffer_from_base64 ivv) = Inr c"
  then have i: "decrypt_init QC key ivv inS outS bufferSize =
     Inr (c, \<lparr>source = inS\<lparr>rs_bufferSize := config_bufferSize bufferSize (rs_bufferSize inS),
                           rs_encoding := Utf8\<rparr>,
              sink = outS\<lparr>ws_encoding := Base64, ws_append := False\<rparr>,
              promise = Pending, trace = []\<rparr>)"
    by (simp add: decrypt_init_Inr)
  show "rs_encoding (source (nativeDecryptStream QC key ivv inS outS bufferSize)) = Utf8"
    by (simp add: nativeDecryptStream_def i decrypt_run_frame)
  show "ws_encoding (sink (nativeDecryptStream QC key ivv inS outS bufferSize)) = Base64"
    by (simp add: nativeDecryptStream_def i decrypt_run_frame)
next
  fix mk c cs evs
  assume a: "createCipheriv QC = Some mk"
    "mk alg (Buffer_from_base64 key) (Buffer_from_base64 ivv) = Inr c"
    "rs_open inS Base64 (config_bufferSize bufferSize (rs_bufferSize inS)) = map OnData cs @ evs"
  show "\<exists>rest. trace (nativeEncryptStream QC key ivv inS outS bufferSize)
            = data_trace Utf8 Base64 cs (fst (updates QC Utf8 Base64 c cs)) @ rest"
    by (rule encrypt_chunks_op(1) [OF a])
  assume "evs = []"
  then show "sink (nativeEncryptStream QC key ivv inS outS bufferSize)
            = writes (outS\<lparr>ws_encoding := Utf8, ws_append := False\<rparr>)
                (written (fst (updates QC Utf8 Base64 c cs)))"
    using encrypt_chunks_op(2) [OF a, of outS] by simp
next
  fix mk c cs evs
  assume a: "createDecipheriv QC = Some mk"
    "mk alg (Buffer_from_base64 key) (Buffer_from_base64 ivv) = Inr c"
    "rs_open inS Utf8 (config_bufferSize bufferSize (rs_bufferSize inS)) = map OnData cs @ evs"
  show "\<exists>rest. trace (nativeDecryptStream QC key ivv inS outS bufferSize)
            = data_trace Base64 Utf8 cs (fst (updates QC Base64 Utf8 c cs)) @ rest"
    by (rule decrypt_chunks_op(1) [OF a])
  assume "evs = []"
  then show "sink (nativeDecryptStream QC key ivv inS outS bufferSize)
            = writes (outS\<lparr>ws_encoding := Base64, ws_append := False\<rparr>)
                (written (fst (updates QC Base64 Utf8 c cs)))"
    using decrypt_chunks_op(2) [OF a, of outS] by simp
qed

lemma MockReadStream_A_events:
  "rs_open (MockReadStream [65]) Base64
      (config_bufferSize None (rs_bufferSize (MockReadStream [65])))
     = map OnData [js ''QQ==''] @ [OnEnd]"
  "rs_open (MockReadStream [65]) Utf8
      (config_bufferSize None (rs_bufferSize (MockReadStream [65])))
     = map OnData [js ''A''] @ [OnEnd]"
  by (simp_all add: MockReadStream_def MockReadStream_open_def config_bufferSize_def chunks_step
      js_def b64char_def b64pad_def utf8_decode_def utf8_step_def utf8_start_def utf8_end_def
      utf8_units_def)

lemma updates_A:
  "fst (updates QC1 Utf8 Base64 (ctx1 True) [js ''QQ=='']) = [Inr []]"
  "fst (updates QC1 Base64 Utf8 (ctx1 False) [js ''A'']) = [Inr []]"
  by (simp_all add: update1_enc)
     (simp add: ossl_update_def ctx1_def block_update_def input_bytes_def
      decoder_write_def js_def Buffer_from_base64_def b64pad_def List.map_filter_def unbase64_def
      Let_def)

theorem stream_encodings_witness:
  "rs_encoding (source (nativeEncryptStream QC1 key1 ivv1 (MockReadStream [65]) MockWriteStream
      None)) = Base64
   \<and> ws_encoding (sink (nativeEncryptStream QC1 key1 ivv1 (MockReadStream [65]) MockWriteStream
      None)) = Utf8
   \<and> rs_encoding (source (nativeDecryptStream QC1 key1 ivv1 (MockReadStream [65]) MockWriteStream
      None)) = Utf8
   \<and> ws_encoding (sink (nativeDecryptStream QC1 key1 ivv1 (MockReadStream [65]) MockWriteStream
      None)) = Base64
   \<and> take 2 (trace (nativeEncryptStream QC1 key1 ivv1 (MockReadStream [65]) MockWriteStream
      None)) = [CipherUpdate (js ''QQ=='') Utf8 Base64, SinkWrite []]
   \<and> take 2 (trace (nativeDecryptStream QC1 key1 ivv1 (MockReadStream [65]) MockWriteStream
      None)) = [CipherUpdate (js ''A'') Base64 Utf8, SinkWrite []]"
proof -
  note t = stream_encodings [where QC = QC1 and key = key1 and ivv = ivv1
      and inS = "MockReadStream [65]" and outS = MockWriteStream and bufferSize = None]
  have 1: "rs_encoding (source (nativeEncryptStream QC1 key1 ivv1 (MockReadStream [65])
        MockWriteStream None)) = Base64
      \<and> ws_encoding (sink (nativeEncryptStream QC1 key1 ivv1 (MockReadStream [65])
        MockWriteStream None)) = Utf8"
    by (rule t [THEN conjunct1, rule_format, of "ossl_create True" "ctx1 True"])
       (simp add: create1)
  have 2: "rs_encoding (source (nativeDecryptStream QC1 key1 ivv1 (MockReadStream [65])
        MockWriteStream None)) = Utf8
      \<and> ws_encoding (sink (nativeDecryptStream QC1 key1 ivv1 (MockReadStream [65])
        MockWriteStream None)) = Base64"
    by (rule t [THEN conjunct2, THEN conjunct1, rule_format, of "ossl_create False" "ctx1 False"])
       (simp add: create1)
  have "(\<exists>rest. trace (nativeEncryptStream QC1 key1 ivv1 (MockReadStream [65]) MockWriteStream
          None)
        = data_trace Utf8 Base64 [js ''QQ=='']
            (fst (updates QC1 Utf8 Base64 (ctx1 True) [js ''QQ==''])) @ rest)
      \<and> ([OnEnd] = [] \<longrightarrow> sink (nativeEncryptStream QC1 key1 ivv1 (MockReadStream [65])
          MockWriteStream None)
        = writes (MockWriteStream\<lparr>ws_encoding := Utf8, ws_append := False\<rparr>)
            (written (fst (updates QC1 Utf8 Base64 (ctx1 True) [js ''QQ==''])))) "
    by (rule t [THEN conjunct2, THEN conjunct2, THEN conjunct1, rule_format,
          of "ossl_create True" "ctx1 True"])
       (simp add: create1 MockReadStream_A_events)
  then have 3: "take 2 (trace (nativeEncryptStream QC1 key1 ivv1 (MockReadStream [65])
      MockWriteStream None)) = [CipherUpdate (js ''QQ=='') Utf8 Base64, SinkWrite []]"
    unfolding updates_A by auto
  have "(\<exists>rest. trace (nativeDecryptStream QC1 key1 ivv1 (MockReadStream [65]) MockWriteStream
          None)
        = data_trace Base64 Utf8 [js ''A'']
            (fst (updates QC1 Base64 Utf8 (ctx1 False) [js ''A''])) @ rest)
      \<and> ([OnEnd] = [] \<longrightarrow> sink (nativeDecryptStream QC1 key1 ivv1 (MockReadStream [65])
          MockWriteStream None)
        = writes (MockWriteStream\<lparr>ws_encoding := Base64, ws_append := False\<rparr>)
            (written (fst (updates QC1 Base64 Utf8 (ctx1 False) [js ''A''])))) "
    by (rule t [THEN conjunct2, THEN conjunct2, THEN conjunct2, rule_format,
          of "ossl_create False" "ctx1 False"])
       (simp add: create1 MockReadStream_A_events)
  then have 4: "take 2 (trace (nativeDecryptStream QC1 key1 ivv1 (MockReadStream [65])
      MockWriteStream None)) = [CipherUpdate (js ''A'') Base64 Utf8, SinkWrite []]"
    unfolding updates_A by auto
  show ?thesis using 1 2 3 4 by simp
qed

text \<open>
  C5 as stated fails in its middle part. The chunk \<^verbatim>\<open>QQ==\<close> is the base64 text of
  the one byte 65; decoded first, as the claim has it, the cipher would take in that one
  byte, but the code's handler makes it take in the four bytes of the text itself.
\<close>

theorem chunk_not_decoded_counterexample:
  "Buffer_from_base64 (js ''QQ=='') = [65]
   \<and> cx_buf (fst (spec_encrypt_onData QC1 (ctx1 True, run1) (js ''QQ==''))) = [65]
   \<and> cx_buf (fst (encrypt_onData QC1 (ctx1 True, run1) (js ''QQ==''))) = [81, 81, 61, 61]"
  by (simp add: spec_encrypt_onData_def encrypt_onData_def ossl_update_def ctx1_def
      block_update_def input_bytes_def getDecoder_def decoder_write_def js_def
      Buffer_from_base64_def b64pad_def List.map_filter_def unbase64_def utf8_decode_def
      utf8_step_def utf8_start_def utf8_end_def utf8_bytes_def unit_bytes_def
      is_high_surrogate_def is_low_surrogate_def Let_def)

section \<open>The stream cipher: there and back\<close>

subsection \<open>The test's sink\<close>

lemma ascii_concat: "ascii (concat xs) \<longleftrightarrow> list_all ascii xs"
  by (induction xs) simp_all

lemma ascii_bytes_concat: "ascii_bytes (concat xs) = concat (map ascii_bytes xs)"
  by (induction xs) simp_all

lemma mock_writes_utf8:
  "ws_write ws = MockWriteStream_write \<Longrightarrow> ws_encoding ws = Utf8 \<Longrightarrow> list_all ascii xs \<Longrightarrow>
   ws_data (writes ws xs) = ws_data ws @ map ascii_bytes xs"
  by (induction xs arbitrary: ws) (simp_all add: MockWriteStream_write_def utf8_encode_ascii)

lemma mock_writes_base64:
  "ws_write ws = MockWriteStream_write \<Longrightarrow> ws_encoding ws = Base64 \<Longrightarrow>
   ws_data (writes ws xs) = ws_data ws @ map Buffer_from_base64 xs"
  by (induction xs arbitrary: ws) (simp_all add: MockWriteStream_write_def)

lemma mock_closed: "ws_close ws = MockWriteStream_close \<Longrightarrow> closed ws = ws"
  by (simp add: closed_def MockWriteStream_close_def)

subsection \<open>Encrypting a stream\<close>

lemma encrypt_update_text:
  assumes enc: "cx_encrypting cx" and nf: "\<not> cx_finalized cx"
    and dec: "getDecoder (cx_decoder cx) Base64 = Inr (Base64Decoder p)"
    and a: "ascii c"
  shows "\<exists>out cx1 p1. ossl_update bc cx c Utf8 Base64 = Inr (out, cx1) \<and> ascii out
     \<and> cx_encrypting cx1 \<and> \<not> cx_finalized cx1 \<and> length (cx_buf cx1) < 16
     \<and> getDecoder (cx_decoder cx1) Base64 = Inr (Base64Decoder p1)
     \<and> (\<forall>rest. toString_base64
            (p @ cbc_message bc (cx_key cx) (cx_iv cx) (cx_buf cx @ ascii_bytes c @ rest))
          = out @ toString_base64
            (p1 @ cbc_message bc (cx_key cx1) (cx_iv cx1) (cx_buf cx1 @ rest)))"
proof -
  obtain ret cx' where bu: "block_update bc cx (ascii_bytes c) = (ret, cx')"
    by (cases "block_update bc cx (ascii_bytes c)")
  note st = encrypt_update_step [OF enc bu]
  obtain out d where dw: "decoder_write (Base64Decoder p) ret = (out, d)"
    by (cases "decoder_write (Base64Decoder p) ret")
  from base64_decoder_write [OF dw] obtain p1 where d: "d = Base64Decoder p1"
    and fut: "\<And>rest. toString_base64 (p @ ret @ rest) = out @ toString_base64 (p1 @ rest)"
    by blast
  have "ascii (out @ toString_base64 (p1 @ []))"
    unfolding fut [symmetric] by simp
  then have ao: "ascii out" by simp
  define cx1 where "cx1 = cx'\<lparr>cx_decoder := Some (Base64Decoder p1)\<rparr>"
  have up: "ossl_update bc cx c Utf8 Base64 = Inr (out, cx1)"
    using nf bu dec dw d st(4) a
    by (simp add: ossl_update_def input_bytes_def utf8_encode_ascii cx1_def)
  have 3: "toString_base64
            (p @ cbc_message bc (cx_key cx) (cx_iv cx) (cx_buf cx @ ascii_bytes c @ rest))
      = out @ toString_base64
            (p1 @ cbc_message bc (cx_key cx1) (cx_iv cx1) (cx_buf cx1 @ rest))" for rest
  proof -
    have "toString_base64
            (p @ cbc_message bc (cx_key cx) (cx_iv cx) (cx_buf cx @ ascii_bytes c @ rest))
        = toString_base64 (p @ ret @ cbc_message bc (cx_key cx') (cx_iv cx') (cx_buf cx' @ rest))"
      by (simp only: st(1))
    also have "\<dots> = out @ toString_base64
        (p1 @ cbc_message bc (cx_key cx') (cx_iv cx') (cx_buf cx' @ rest))"
      by (rule fut)
    finally show ?thesis by (simp add: cx1_def)
  qed
  have 4: "cx_encrypting cx1" "\<not> cx_finalized cx1" "length (cx_buf cx1) < 16"
    "getDecoder (cx_decoder cx1) Base64 = Inr (Base64Decoder p1)"
    using st nf by (simp_all add: cx1_def)
  show ?thesis using up ao 3 4 by blast
qed

lemma encrypt_final_text:
  assumes enc: "cx_encrypting cx" and nf: "\<not> cx_finalized cx"
    and buf: "length (cx_buf cx) < 16"
    and dec: "getDecoder (cx_decoder cx) Base64 = Inr (Base64Decoder p)"
  shows "ossl_final bc cx Base64
     = Inr (toString_base64 (p @ cbc_message bc (cx_key cx) (cx_iv cx) (cx_buf cx)),
            cx\<lparr>cx_buf := [], cx_finalized := True\<rparr>)"
  using nf dec encrypt_final_message [OF enc buf, of bc]
  by (simp add: ossl_final_def base64_decoder_end)

lemma updates_encrypt:
  assumes "cx_encrypting cx" and "\<not> cx_finalized cx" and "length (cx_buf cx) < 16"
    and "getDecoder (cx_decoder cx) Base64 = Inr (Base64Decoder p)"
    and "list_all ascii cs"
  shows "\<exists>rs cx1 p1. updates (QuickCrypto_of bc kdf) Utf8 Base64 cx cs = (rs, cx1)
     \<and> list_all ascii (written rs)
     \<and> cx_encrypting cx1 \<and> \<not> cx_finalized cx1 \<and> length (cx_buf cx1) < 16
     \<and> getDecoder (cx_decoder cx1) Base64 = Inr (Base64Decoder p1)
     \<and> (\<forall>rest. toString_base64
            (p @ cbc_message bc (cx_key cx) (cx_iv cx)
                   (cx_buf cx @ ascii_bytes (concat cs) @ rest))
          = concat (written rs) @ toString_base64
            (p1 @ cbc_message bc (cx_key cx1) (cx_iv cx1) (cx_buf cx1 @ rest)))"
  using assms
proof (induction cs arbitrary: cx p)
  case Nil
  then show ?case by simp
next
  case (Cons c cs)
  from Cons.prems have a: "ascii c" and as: "list_all ascii cs" by simp_all
  from encrypt_update_text [OF Cons.prems(1,2,4) a, of bc]
  obtain out cx1 p1 where u: "ossl_update bc cx c Utf8 Base64 = Inr (out, cx1)"
    and ao: "ascii out"
    and i: "cx_encrypting cx1" "\<not> cx_finalized cx1" "length (cx_buf cx1) < 16"
      "getDecoder (cx_decoder cx1) Base64 = Inr (Base64Decoder p1)"
    and fut: "\<And>rest. toString_base64
            (p @ cbc_message bc (cx_key cx) (cx_iv cx) (cx_buf cx @ ascii_bytes c @ rest))
          = out @ toString_base64
            (p1 @ cbc_message bc (cx_key cx1) (cx_iv cx1) (cx_buf cx1 @ rest))"
    by blast
  from Cons.IH [OF i as]
  obtain rs cx2 p2 where
    us: "updates (QuickCrypto_of bc kdf) Utf8 Base64 cx1 cs = (rs, cx2)"
    and ar: "list_all ascii (written rs)"
    and j: "cx_encrypting cx2" "\<not> cx_finalized cx2" "length (cx_buf cx2) < 16"
      "getDecoder (cx_decoder cx2) Base64 = Inr (Base64Decoder p2)"
    and fut2: "\<And>rest. toString_base64
            (p1 @ cbc_message bc (cx_key cx1) (cx_iv cx1)
                   (cx_buf cx1 @ ascii_bytes (concat cs) @ rest))
          = concat (written rs) @ toString_base64
            (p2 @ cbc_message bc (cx_key cx2) (cx_iv cx2) (cx_buf cx2 @ rest))"
    by blast
  have 1: "updates (QuickCrypto_of bc kdf) Utf8 Base64 cx (c # cs) = (Inr out # rs, cx2)"
    by (simp add: u us)
  have 2: "toString_base64
            (p @ cbc_message bc (cx_key cx) (cx_iv cx)
                   (cx_buf cx @ ascii_bytes (concat (c # cs)) @ rest))
          = concat (written (Inr out # rs)) @ toString_base64
            (p2 @ cbc_message bc (cx_key cx2) (cx_iv cx2) (cx_buf cx2 @ rest))" for rest
    using fut [of "ascii_bytes (concat cs) @ rest"] fut2 [of rest] by simp
  have 3: "list_all ascii (written (Inr out # rs))"
    using ao ar by simp
  show ?case using 1 2 3 j by blast
qed

lemma encrypt_end_sink:
  assumes "createCipheriv QC = Some mk"
    and "mk alg (Buffer_from_base64 key) (Buffer_from_base64 ivv) = Inr c"
    and "rs_open inS Base64 (config_bufferSize b (rs_bufferSize inS)) = map OnData cs @ [OnEnd]"
    and f: "final QC (snd (updates QC Utf8 Base64 c cs)) Base64 = Inr (fin, c2)"
    and w: "fin \<noteq> [] \<longrightarrow>
        write_resolves (writes (outS\<lparr>ws_encoding := Utf8, ws_append := False\<rparr>)
          (written (fst (updates QC Utf8 Base64 c cs)))) fin"
    and cl: "close_resolves (writes (outS\<lparr>ws_encoding := Utf8, ws_append := False\<rparr>)
          (written (fst (updates QC Utf8 Base64 c cs)) @ (if fin \<noteq> [] then [fin] else [])))"
  shows "sink (nativeEncryptStream QC key ivv inS outS b)
     = closed (writes (outS\<lparr>ws_encoding := Utf8, ws_append := False\<rparr>)
         (written (fst (updates QC Utf8 Base64 c cs)) @ (if fin \<noteq> [] then [fin] else [])))"
proof -
  define r where "r = \<lparr>source = inS\<lparr>rs_bufferSize := config_bufferSize b (rs_bufferSize inS),
                      rs_encoding := Base64\<rparr>,
         sink = writes (outS\<lparr>ws_encoding := Utf8, ws_append := False\<rparr>)
                  (written (fst (updates QC Utf8 Base64 c cs))),
         promise = Pending,
         trace = data_trace Utf8 Base64 cs (fst (updates QC Utf8 Base64 c cs))\<rparr>"
  have op: "nativeEncryptStream QC key ivv inS outS b
      = snd (encrypt_handle QC (snd (updates QC Utf8 Base64 c cs), r) OnEnd)"
    by (simp add: nativeEncryptStream_events [OF assms(1,2,3)] r_def)
  have w': "fin \<noteq> [] \<longrightarrow> write_resolves (sink r) fin"
    using w by (simp add: r_def)
  have cl': "close_resolves (writes (sink r) (if fin \<noteq> [] then [fin] else []))"
    using cl by (simp add: r_def writes_append)
  show ?thesis
    unfolding op encrypt_end_run [OF f w' cl'] by (simp add: r_def writes_append)
qed

lemma decrypt_end_sink:
  assumes "createDecipheriv QC = Some mk"
    and "mk alg (Buffer_from_base64 key) (Buffer_from_base64 ivv) = Inr c"
    and "rs_open inS Utf8 (config_bufferSize b (rs_bufferSize inS)) = map OnData cs @ [OnEnd]"
    and f: "final QC (snd (updates QC Base64 Utf8 c cs)) Utf8 = Inr (fin, c2)"
    and w: "fin \<noteq> [] \<longrightarrow>
        write_resolves (writes (outS\<lparr>ws_encoding := Base64, ws_append := False\<rparr>)
          (written (fst (updates QC Base64 Utf8 c cs)))) fin"
    and cl: "close_resolves (writes (outS\<lparr>ws_encoding := Base64, ws_append := False\<rparr>)
          (written (fst (updates QC Base64 Utf8 c cs)) @ (if fin \<noteq> [] then [fin] else [])))"
  shows "sink (nativeDecryptStream QC key ivv inS outS b)
     = closed (writes (outS\<lparr>ws_encoding := Base64, ws_append := False\<rparr>)
         (written (fst (updates QC Base64 Utf8 c cs)) @ (if fin \<noteq> [] then [fin] else [])))"
proof -
  define r where "r = \<lparr>source = inS\<lparr>rs_bufferSize := config_bufferSize b (rs_bufferSize inS),
                      rs_encoding := Utf8\<rparr>,
         sink = writes (outS\<lparr>ws_encoding := Base64, ws_append := False\<rparr>)
                  (written (fst (updates QC Base64 Utf8 c cs))),
         promise = Pending,
         trace = data_trace Base64 Utf8 cs (fst (updates QC Base64 Utf8 c cs))\<rparr>"
  have op: "nativeDecryptStream QC key ivv inS outS b
      = snd (decrypt_handle QC (snd (updates QC Base64 Utf8 c cs), r) OnEnd)"
    by (simp add: nativeDecryptStream_events [OF assms(1,2,3)] r_def)
  have w': "fin \<noteq> [] \<longrightarrow> write_resolves (sink r) fin"
    using w by (simp add: r_def)
  have cl': "close_resolves (writes (sink r) (if fin \<noteq> [] then [fin] else []))"
    using cl by (simp add: r_def writes_append)
  show ?thesis
    unfolding op decrypt_end_run [OF f w' cl'] by (simp add: r_def writes_append)
qed

lemma concat_with_last: "concat (xs @ (if y \<noteq> [] then [y] else [])) = concat xs @ y"
  by simp

lemma nativeEncryptStream_value:
  assumes k: "length (Buffer_from_base64 key) = 32" and iv: "length (Buffer_from_base64 ivv) = 16"
    and ev: "rs_open inS Base64 (config_bufferSize b (rs_bufferSize inS))
        = map OnData cs @ [OnEnd]"
    and a: "list_all ascii cs"
  shows "promise (nativeEncryptStream (QuickCrypto_of bc kdf) key ivv inS MockWriteStream b)
       = Resolved
     \<and> getBuffer (sink (nativeEncryptStream (QuickCrypto_of bc kdf) key ivv inS MockWriteStream b))
       = ascii_bytes (toString_base64 (cbc_message bc (Buffer_from_base64 key)
           (Buffer_from_base64 ivv) (ascii_bytes (concat cs))))"
proof -
  define K where "K = Buffer_from_base64 key"
  define IV where "IV = Buffer_from_base64 ivv"
  define QC where "QC = QuickCrypto_of bc kdf"
  have mk: "createCipheriv QC = Some (ossl_create True)"
    by (simp add: QC_def)
  have c: "ossl_create True alg (Buffer_from_base64 key) (Buffer_from_base64 ivv)
      = Inr (fresh True K IV)"
    unfolding K_def IV_def by (rule ossl_create_valid(1) [OF k iv])
  have "\<exists>rs cx1 p1. updates (QuickCrypto_of bc kdf) Utf8 Base64 (fresh True K IV) cs = (rs, cx1)
     \<and> list_all ascii (written rs)
     \<and> cx_encrypting cx1 \<and> \<not> cx_finalized cx1 \<and> length (cx_buf cx1) < 16
     \<and> getDecoder (cx_decoder cx1) Base64 = Inr (Base64Decoder p1)
     \<and> (\<forall>rest. toString_base64
            ([] @ cbc_message bc (cx_key (fresh True K IV)) (cx_iv (fresh True K IV))
                   (cx_buf (fresh True K IV) @ ascii_bytes (concat cs) @ rest))
          = concat (written rs) @ toString_base64
            (p1 @ cbc_message bc (cx_key cx1) (cx_iv cx1) (cx_buf cx1 @ rest)))"
    by (rule updates_encrypt) (simp_all add: a)
  then obtain rs cx1 p1 where us: "updates QC Utf8 Base64 (fresh True K IV) cs = (rs, cx1)"
    and ar: "list_all ascii (written rs)"
    and i: "cx_encrypting cx1" "\<not> cx_finalized cx1" "length (cx_buf cx1) < 16"
      "getDecoder (cx_decoder cx1) Base64 = Inr (Base64Decoder p1)"
    and fut: "\<And>rest. toString_base64 (cbc_message bc K IV (ascii_bytes (concat cs) @ rest))
          = concat (written rs) @ toString_base64
            (p1 @ cbc_message bc (cx_key cx1) (cx_iv cx1) (cx_buf cx1 @ rest))"
    unfolding QC_def by auto
  define fin where "fin = toString_base64 (p1 @ cbc_message bc (cx_key cx1) (cx_iv cx1) (cx_buf cx1))"
  have total: "toString_base64 (cbc_message bc K IV (ascii_bytes (concat cs)))
      = concat (written rs) @ fin"
    using fut [of "[]"] by (simp add: fin_def)
  have af: "ascii fin" by (simp add: fin_def)
  have f: "final QC (snd (updates QC Utf8 Base64 (fresh True K IV) cs)) Base64
      = Inr (fin, cx1\<lparr>cx_buf := [], cx_finalized := True\<rparr>)"
    using us unfolding QC_def fin_def by (simp add: encrypt_final_text [OF i])
  have w: "fin \<noteq> [] \<longrightarrow>
        write_resolves (writes (MockWriteStream\<lparr>ws_encoding := Utf8, ws_append := False\<rparr>)
          (written (fst (updates QC Utf8 Base64 (fresh True K IV) cs)))) fin"
    by simp
  have cl: "close_resolves (writes (MockWriteStream\<lparr>ws_encoding := Utf8, ws_append := False\<rparr>)
          (written (fst (updates QC Utf8 Base64 (fresh True K IV) cs))
             @ (if fin \<noteq> [] then [fin] else [])))"
    by simp
  have p: "promise (nativeEncryptStream QC key ivv inS MockWriteStream b) = Resolved"
    using encrypt_end_op [OF mk c ev f w cl] by simp
  define S0 where "S0 = MockWriteStream\<lparr>ws_encoding := Utf8, ws_append := False\<rparr>"
  define ys where "ys = written rs @ (if fin \<noteq> [] then [fin] else [])"
  have ay: "list_all ascii ys"
    using ar af by (simp add: ys_def)
  have cy: "concat ys = concat (written rs) @ fin"
    by (simp add: ys_def)
  have d: "ws_data (writes S0 ys) = ws_data S0 @ map ascii_bytes ys"
    by (rule mock_writes_utf8) (simp_all add: S0_def MockWriteStream_def ay)
  have "sink (nativeEncryptStream QC key ivv inS MockWriteStream b) = closed (writes S0 ys)"
    unfolding encrypt_end_sink [OF mk c ev f w cl] us by (simp add: S0_def ys_def)
  also have "\<dots> = writes S0 ys"
    by (rule mock_closed) (simp add: S0_def MockWriteStream_def)
  finally have "getBuffer (sink (nativeEncryptStream QC key ivv inS MockWriteStream b))
      = concat (map ascii_bytes ys)"
    using d by (simp add: getBuffer_def S0_def MockWriteStream_def)
  also have "\<dots> = ascii_bytes (concat ys)"
    by (simp only: ascii_bytes_concat)
  also have "\<dots> = ascii_bytes (toString_base64 (cbc_message bc K IV (ascii_bytes (concat cs))))"
    by (simp only: cy total)
  finally have "getBuffer (sink (nativeEncryptStream QC key ivv inS MockWriteStream b))
      = ascii_bytes (toString_base64 (cbc_message bc K IV (ascii_bytes (concat cs))))" .
  then show ?thesis using p by (simp add: QC_def K_def IV_def)
qed

subsection \<open>Decrypting a stream\<close>

lemma segments_base64:
  "list_all (\<lambda>s. 4 dvd length s) segs \<Longrightarrow> concat segs = toString_base64 X \<Longrightarrow>
   \<exists>xs. segs = map toString_base64 xs \<and> concat xs = X"
proof (induction segs arbitrary: X)
  case Nil
  then have "toString_base64 X = []" by simp
  then show ?case by simp
next
  case (Cons seg segs)
  from Cons.prems(1) obtain j where j: "length seg = 4 * j" and rest: "list_all (\<lambda>s. 4 dvd length s) segs"
    by auto
  have "seg = take (4 * j) (toString_base64 X)"
    using Cons.prems(2) j by (metis append_eq_conv_conj concat.simps(2))
  then have s: "seg = toString_base64 (take (3 * j) X)"
    by (simp only: take_toString_base64)
  have "concat segs = drop (4 * j) (toString_base64 X)"
    using Cons.prems(2) j by (metis append_eq_conv_conj concat.simps(2))
  then have "concat segs = toString_base64 (drop (3 * j) X)"
    by (simp only: drop_toString_base64)
  from Cons.IH [OF rest this] obtain xs where
    xs: "segs = map toString_base64 xs" "concat xs = drop (3 * j) X"
    by blast
  have "seg # segs = map toString_base64 (take (3 * j) X # xs)"
    using s xs(1) by simp
  moreover have "concat (take (3 * j) X # xs) = X"
    using xs(2) by simp
  ultimately show ?case
    by (intro exI [of _ "take (3 * j) X # xs"] conjI)
qed

lemma take16_base64:
  assumes "16 dvd n"
  shows "take n (ascii_bytes (toString_base64 D))
           = ascii_bytes (toString_base64 (take (3 * (n div 4)) D))"
    and "drop n (ascii_bytes (toString_base64 D))
           = ascii_bytes (toString_base64 (drop (3 * (n div 4)) D))"
proof -
  from assms have n: "n = 4 * (n div 4)" by auto
  show "take n (ascii_bytes (toString_base64 D))
           = ascii_bytes (toString_base64 (take (3 * (n div 4)) D))"
    by (subst n) (simp only: ascii_bytes_def take_map take_toString_base64)
  show "drop n (ascii_bytes (toString_base64 D))
           = ascii_bytes (toString_base64 (drop (3 * (n div 4)) D))"
    by (subst n) (simp only: ascii_bytes_def drop_map drop_toString_base64)
qed

lemma decrypt_update_text:
  assumes ok: "bc_ok bc" and k: "length (cx_key cx) = 32" and iv: "length (cx_iv cx) = 16"
    and dec: "\<not> cx_encrypting cx" and nf: "\<not> cx_finalized cx"
    and dcd: "getDecoder (cx_decoder cx) Utf8 = Inr (Utf8Decoder Idle)"
    and Z: "cx_buf cx @ x @ rest
        = cbc_message bc (cx_key cx) (cx_iv cx) (ascii_bytes (toString_base64 D))"
  shows "\<exists>out cx1 D1. ossl_update bc cx (toString_base64 x) Base64 Utf8 = Inr (out, cx1)
     \<and> length (cx_key cx1) = 32 \<and> length (cx_iv cx1) = 16
     \<and> \<not> cx_encrypting cx1 \<and> \<not> cx_finalized cx1 \<and> length (cx_buf cx1) \<le> 16
     \<and> getDecoder (cx_decoder cx1) Utf8 = Inr (Utf8Decoder Idle)
     \<and> cx_buf cx1 @ rest
         = cbc_message bc (cx_key cx1) (cx_iv cx1) (ascii_bytes (toString_base64 D1))
     \<and> Buffer_from_base64 out @ D1 = D"
proof -
  from decrypt_update_step [OF ok k iv dec Z]
  obtain n cx' where n: "16 dvd n"
    and bu: "block_update bc cx x = (take n (ascii_bytes (toString_base64 D)), cx')"
    and Z1: "cx_buf cx' @ rest
        = cbc_message bc (cx_key cx) (cx_iv cx') (drop n (ascii_bytes (toString_base64 D)))"
    and i: "length (cx_iv cx') = 16" "length (cx_buf cx') \<le> 16" "cx_key cx' = cx_key cx"
      "\<not> cx_encrypting cx'" "cx_decoder cx' = cx_decoder cx" "cx_finalized cx' = cx_finalized cx"
    by metis
  define out where "out = toString_base64 (take (3 * (n div 4)) D)"
  define D1 where "D1 = drop (3 * (n div 4)) D"
  define cx1 where "cx1 = cx'\<lparr>cx_decoder := Some (Utf8Decoder Idle)\<rparr>"
  have bu': "block_update bc cx x = (ascii_bytes out, cx')"
    using bu by (simp only: take16_base64(1) [OF n] out_def)
  have dw: "decoder_write (Utf8Decoder Idle) (ascii_bytes out) = (out, Utf8Decoder Idle)"
    by (simp add: decoder_write_def utf8_write_ascii out_def)
  have up: "ossl_update bc cx (toString_base64 x) Base64 Utf8 = Inr (out, cx1)"
    using nf bu' dcd dw i(5) by (simp add: ossl_update_def input_bytes_def cx1_def)
  have 2: "Buffer_from_base64 out @ D1 = D"
    by (simp add: out_def D1_def)
  have 3: "cx_buf cx1 @ rest
      = cbc_message bc (cx_key cx1) (cx_iv cx1) (ascii_bytes (toString_base64 D1))"
    using Z1 i(3) by (simp add: cx1_def D1_def take16_base64(2) [OF n])
  have 4: "length (cx_key cx1) = 32" "length (cx_iv cx1) = 16" "\<not> cx_encrypting cx1"
    "\<not> cx_finalized cx1" "length (cx_buf cx1) \<le> 16"
    "getDecoder (cx_decoder cx1) Utf8 = Inr (Utf8Decoder Idle)"
    using i k nf by (simp_all add: cx1_def)
  show ?thesis using up 2 3 4 by blast
qed

lemma utf8_decoder_end_ascii:
  "ascii s \<Longrightarrow> decoder_end (Utf8Decoder Idle) (ascii_bytes s) = s"
  by (simp add: decoder_end_def decoder_write_def utf8_write_ascii utf8_end_def)

lemma decrypt_final_text:
  assumes ok: "bc_ok bc" and k: "length (cx_key cx) = 32" and iv: "length (cx_iv cx) = 16"
    and dec: "\<not> cx_encrypting cx" and nf: "\<not> cx_finalized cx"
    and buf: "length (cx_buf cx) \<le> 16"
    and dcd: "getDecoder (cx_decoder cx) Utf8 = Inr (Utf8Decoder Idle)"
    and Z: "cx_buf cx = cbc_message bc (cx_key cx) (cx_iv cx) (ascii_bytes (toString_base64 D))"
  shows "ossl_final bc cx Utf8
      = Inr (toString_base64 D, cx\<lparr>cx_buf := [], cx_finalized := True\<rparr>)"
proof -
  have "block_final bc cx = Inr (ascii_bytes (toString_base64 D))"
    by (rule decrypt_final_message(2) [OF ok k iv dec buf Z])
  then show ?thesis
    using nf dcd by (simp add: ossl_final_def utf8_decoder_end_ascii)
qed

lemma updates_decrypt:
  assumes "bc_ok bc" and "length (cx_key cx) = 32" and "length (cx_iv cx) = 16"
    and "\<not> cx_encrypting cx" and "\<not> cx_finalized cx" and "length (cx_buf cx) \<le> 16"
    and "getDecoder (cx_decoder cx) Utf8 = Inr (Utf8Decoder Idle)"
    and "cx_buf cx @ concat xs
        = cbc_message bc (cx_key cx) (cx_iv cx) (ascii_bytes (toString_base64 D))"
  shows "\<exists>rs cx1 D1. updates (QuickCrypto_of bc kdf) Base64 Utf8 cx (map toString_base64 xs)
        = (rs, cx1)
     \<and> length (cx_key cx1) = 32 \<and> length (cx_iv cx1) = 16
     \<and> \<not> cx_encrypting cx1 \<and> \<not> cx_finalized cx1 \<and> length (cx_buf cx1) \<le> 16
     \<and> getDecoder (cx_decoder cx1) Utf8 = Inr (Utf8Decoder Idle)
     \<and> cx_buf cx1 = cbc_message bc (cx_key cx1) (cx_iv cx1) (ascii_bytes (toString_base64 D1))
     \<and> concat (map Buffer_from_base64 (written rs)) @ D1 = D"
  using assms
proof (induction xs arbitrary: cx D)
  case Nil
  then show ?case by simp
next
  case (Cons x xs)
  have Z: "cx_buf cx @ x @ concat xs
      = cbc_message bc (cx_key cx) (cx_iv cx) (ascii_bytes (toString_base64 D))"
    using Cons.prems(8) by simp
  from decrypt_update_text [OF Cons.prems(1,2,3,4,5,7) Z]
  obtain out cx1 D1 where
    u: "ossl_update bc cx (toString_base64 x) Base64 Utf8 = Inr (out, cx1)"
    and i: "length (cx_key cx1) = 32" "length (cx_iv cx1) = 16" "\<not> cx_encrypting cx1"
      "\<not> cx_finalized cx1" "length (cx_buf cx1) \<le> 16"
      "getDecoder (cx_decoder cx1) Utf8 = Inr (Utf8Decoder Idle)"
    and Z1: "cx_buf cx1 @ concat xs
        = cbc_message bc (cx_key cx1) (cx_iv cx1) (ascii_bytes (toString_base64 D1))"
    and b: "Buffer_from_base64 out @ D1 = D"
    by blast
  from Cons.IH [OF Cons.prems(1) i Z1]
  obtain rs cx2 D2 where
    us: "updates (QuickCrypto_of bc kdf) Base64 Utf8 cx1 (map toString_base64 xs) = (rs, cx2)"
    and j: "length (cx_key cx2) = 32" "length (cx_iv cx2) = 16" "\<not> cx_encrypting cx2"
      "\<not> cx_finalized cx2" "length (cx_buf cx2) \<le> 16"
      "getDecoder (cx_decoder cx2) Utf8 = Inr (Utf8Decoder Idle)"
      "cx_buf cx2 = cbc_message bc (cx_key cx2) (cx_iv cx2) (ascii_bytes (toString_base64 D2))"
    and b2: "concat (map Buffer_from_base64 (written rs)) @ D2 = D1"
    by blast
  have 1: "updates (QuickCrypto_of bc kdf) Base64 Utf8 cx (map toString_base64 (x # xs))
      = (Inr out # rs, cx2)"
    by (simp add: u us)
  have 2: "concat (map Buffer_from_base64 (written (Inr out # rs))) @ D2 = D"
    using b b2 by simp
  show ?case using 1 2 j by blast
qed

lemma nativeDecryptStream_value:
  assumes ok: "bc_ok bc"
    and k: "length (Buffer_from_base64 key) = 32" and iv: "length (Buffer_from_base64 ivv) = 16"
    and ev: "rs_open inS Utf8 (config_bufferSize b (rs_bufferSize inS))
        = map OnData cs @ [OnEnd]"
    and P: "concat cs = toString_base64 (cbc_message bc (Buffer_from_base64 key)
        (Buffer_from_base64 ivv) (ascii_bytes (toString_base64 D)))"
    and A: "list_all (\<lambda>c. 4 dvd length c) cs"
  shows "promise (nativeDecryptStream (QuickCrypto_of bc kdf) key ivv inS MockWriteStream b)
       = Resolved
     \<and> getBuffer (sink (nativeDecryptStream (QuickCrypto_of bc kdf) key ivv inS MockWriteStream b))
       = D"
proof -
  define K where "K = Buffer_from_base64 key"
  define IV where "IV = Buffer_from_base64 ivv"
  define QC where "QC = QuickCrypto_of bc kdf"
  define CT where "CT = cbc_message bc K IV (ascii_bytes (toString_base64 D))"
  have mk: "createDecipheriv QC = Some (ossl_create False)"
    by (simp add: QC_def)
  have c: "ossl_create False alg (Buffer_from_base64 key) (Buffer_from_base64 ivv)
      = Inr (fresh False K IV)"
    unfolding K_def IV_def by (rule ossl_create_valid(1) [OF k iv])
  from segments_base64 [OF A P] obtain xs where
    xs: "cs = map toString_base64 xs" "concat xs = CT"
    unfolding CT_def K_def IV_def by blast
  have "\<exists>rs cx1 D1. updates (QuickCrypto_of bc kdf) Base64 Utf8 (fresh False K IV)
          (map toString_base64 xs) = (rs, cx1)
     \<and> length (cx_key cx1) = 32 \<and> length (cx_iv cx1) = 16
     \<and> \<not> cx_encrypting cx1 \<and> \<not> cx_finalized cx1 \<and> length (cx_buf cx1) \<le> 16
     \<and> getDecoder (cx_decoder cx1) Utf8 = Inr (Utf8Decoder Idle)
     \<and> cx_buf cx1 = cbc_message bc (cx_key cx1) (cx_iv cx1) (ascii_bytes (toString_base64 D1))
     \<and> concat (map Buffer_from_base64 (written rs)) @ D1 = D"
    by (rule updates_decrypt [OF ok])
       (simp_all add: k iv K_def IV_def xs(2) [unfolded CT_def K_def IV_def])
  then obtain rs cx1 D1 where us: "updates QC Base64 Utf8 (fresh False K IV) cs = (rs, cx1)"
    and i: "length (cx_key cx1) = 32" "length (cx_iv cx1) = 16" "\<not> cx_encrypting cx1"
      "\<not> cx_finalized cx1" "length (cx_buf cx1) \<le> 16"
      "getDecoder (cx_decoder cx1) Utf8 = Inr (Utf8Decoder Idle)"
      "cx_buf cx1 = cbc_message bc (cx_key cx1) (cx_iv cx1) (ascii_bytes (toString_base64 D1))"
    and total: "concat (map Buffer_from_base64 (written rs)) @ D1 = D"
    unfolding QC_def xs(1) by auto
  define fin where "fin = toString_base64 D1"
  have f: "final QC (snd (updates QC Base64 Utf8 (fresh False K IV) cs)) Utf8
      = Inr (fin, cx1\<lparr>cx_buf := [], cx_finalized := True\<rparr>)"
    using us unfolding QC_def fin_def by (simp add: decrypt_final_text [OF ok i])
  have w: "fin \<noteq> [] \<longrightarrow>
        write_resolves (writes (MockWriteStream\<lparr>ws_encoding := Base64, ws_append := False\<rparr>)
          (written (fst (updates QC Base64 Utf8 (fresh False K IV) cs)))) fin"
    by simp
  have cl: "close_resolves (writes (MockWriteStream\<lparr>ws_encoding := Base64, ws_append := False\<rparr>)
          (written (fst (updates QC Base64 Utf8 (fresh False K IV) cs))
             @ (if fin \<noteq> [] then [fin] else [])))"
    by simp
  have p: "promise (nativeDecryptStream QC key ivv inS MockWriteStream b) = Resolved"
    using decrypt_end_op [OF mk c ev f w cl] by simp
  define S0 where "S0 = MockWriteStream\<lparr>ws_encoding := Base64, ws_append := False\<rparr>"
  define ys where "ys = written rs @ (if fin \<noteq> [] then [fin] else [])"
  have cy: "concat (map Buffer_from_base64 ys) = concat (map Buffer_from_base64 (written rs)) @ D1"
    by (simp add: ys_def fin_def)
  have d: "ws_data (writes S0 ys) = ws_data S0 @ map Buffer_from_base64 ys"
    by (rule mock_writes_base64) (simp_all add: S0_def MockWriteStream_def)
  have "sink (nativeDecryptStream QC key ivv inS MockWriteStream b) = closed (writes S0 ys)"
    unfolding decrypt_end_sink [OF mk c ev f w cl] us by (simp add: S0_def ys_def)
  also have "\<dots> = writes S0 ys"
    by (rule mock_closed) (simp add: S0_def MockWriteStream_def)
  finally have "getBuffer (sink (nativeDecryptStream QC key ivv inS MockWriteStream b))
      = concat (map Buffer_from_base64 ys)"
    using d by (simp add: getBuffer_def S0_def MockWriteStream_def)
  also have "\<dots> = D"
    by (simp only: cy total)
  finally have "getBuffer (sink (nativeDecryptStream QC key ivv inS MockWriteStream b)) = D" .
  then show ?thesis using p by (simp add: QC_def)
qed

subsection \<open>The test's source\<close>

lemma chunkSize_pos:
  "(0 :: nat) < (case config_bufferSize b (Some 1024) of
                   None \<Rightarrow> 1024 | Some n \<Rightarrow> (if n \<noteq> 0 then n else 1024))"
  by (cases b) (simp_all add: config_bufferSize_def)

lemma chunks_aligned:
  "0 < j \<Longrightarrow> 4 dvd length s \<Longrightarrow> list_all (\<lambda>c. 4 dvd length c) (chunks (4 * j) s)"
proof (induction "4 * j" s rule: chunks.induct)
  case (1 xs)
  show ?case
  proof (cases "xs = []")
    case True
    then show ?thesis by simp
  next
    case False
    then have c: "chunks (4 * j) xs = take (4 * j) xs # chunks (4 * j) (drop (4 * j) xs)"
      using 1(2) by (simp add: chunks_step)
    have "4 dvd length (take (4 * j) xs)"
      using 1(3) by (simp add: min_def)
    moreover have "4 dvd length (drop (4 * j) xs)"
      using 1(3) by (simp add: dvd_diff_nat)
    ultimately show ?thesis
      using 1 False c by simp
  qed
qed

lemma MockReadStream_base64_pieces:
  "\<exists>cs. rs_open (MockReadStream D) Base64
            (config_bufferSize b (rs_bufferSize (MockReadStream D))) = map OnData cs @ [OnEnd]
     \<and> concat cs = toString_base64 D"
proof -
  define c :: nat where "c = (case config_bufferSize b (Some 1024) of
                   None \<Rightarrow> 1024 | Some n \<Rightarrow> (if n \<noteq> 0 then n else 1024))"
  have "0 < c" unfolding c_def by (rule chunkSize_pos)
  then have "concat (chunks c (toString_base64 D)) = toString_base64 D" by simp
  moreover have "rs_open (MockReadStream D) Base64
            (config_bufferSize b (rs_bufferSize (MockReadStream D)))
      = map OnData (chunks c (toString_base64 D)) @ [OnEnd]"
    by (simp add: MockReadStream_def MockReadStream_open_def c_def)
  ultimately show ?thesis by blast
qed

lemma MockReadStream_text_pieces:
  assumes b: "\<forall>n. b = Some n \<longrightarrow> 4 dvd n" and l: "4 dvd length (utf8_decode E)"
  shows "\<exists>cs. rs_open (MockReadStream E) Utf8
            (config_bufferSize b (rs_bufferSize (MockReadStream E))) = map OnData cs @ [OnEnd]
     \<and> concat cs = utf8_decode E \<and> list_all (\<lambda>c. 4 dvd length c) cs"
proof -
  define c :: nat where "c = (case config_bufferSize b (Some 1024) of
                   None \<Rightarrow> 1024 | Some n \<Rightarrow> (if n \<noteq> 0 then n else 1024))"
  have "0 < c" unfolding c_def by (rule chunkSize_pos)
  moreover have "4 dvd c"
    using b by (cases b) (auto simp: c_def config_bufferSize_def)
  ultimately have j: "0 < c div 4" and cj: "c = 4 * (c div 4)" by auto
  have "list_all (\<lambda>c. 4 dvd length c) (chunks (4 * (c div 4)) (utf8_decode E))"
    by (rule chunks_aligned [OF j l])
  then have "list_all (\<lambda>c. 4 dvd length c) (chunks c (utf8_decode E))"
    using cj by simp
  moreover have "rs_open (MockReadStream E) Utf8
            (config_bufferSize b (rs_bufferSize (MockReadStream E)))
      = map OnData (chunks c (utf8_decode E)) @ [OnEnd]"
    by (simp add: MockReadStream_def MockReadStream_open_def c_def)
  moreover have "concat (chunks c (utf8_decode E)) = utf8_decode E"
    using \<open>0 < c\<close> by simp
  ultimately show ?thesis by blast
qed

subsection \<open>The round trip\<close>

lemma stream_round_trip_pieces:
  assumes ok: "bc_ok bc"
    and k: "length (Buffer_from_base64 key) = 32" and iv: "length (Buffer_from_base64 ivv) = 16"
    and e1: "rs_open inS1 Base64 (config_bufferSize b1 (rs_bufferSize inS1))
        = map OnData cs1 @ [OnEnd]"
    and p1: "concat cs1 = toString_base64 D"
    and e2: "rs_open inS2 Utf8 (config_bufferSize b2 (rs_bufferSize inS2))
        = map OnData cs2 @ [OnEnd]"
    and p2: "concat cs2 = utf8_decode (getBuffer (sink
        (nativeEncryptStream (QuickCrypto_of bc kdf) key ivv inS1 MockWriteStream b1)))"
    and a2: "list_all (\<lambda>c. 4 dvd length c) cs2"
  shows "promise (nativeEncryptStream (QuickCrypto_of bc kdf) key ivv inS1 MockWriteStream b1)
       = Resolved
     \<and> getBuffer (sink (nativeEncryptStream (QuickCrypto_of bc kdf) key ivv inS1 MockWriteStream
          b1))
       = ascii_bytes (toString_base64 (cbc_message bc (Buffer_from_base64 key)
           (Buffer_from_base64 ivv) (ascii_bytes (toString_base64 D))))
     \<and> promise (nativeDecryptStream (QuickCrypto_of bc kdf) key ivv inS2 MockWriteStream b2)
       = Resolved
     \<and> getBuffer (sink (nativeDecryptStream (QuickCrypto_of bc kdf) key ivv inS2 MockWriteStream
          b2)) = D"
proof -
  have "ascii (concat cs1)" by (simp add: p1)
  then have a1: "list_all ascii cs1" by (simp add: ascii_concat)
  note enc = nativeEncryptStream_value [OF k iv e1 a1, of bc kdf, unfolded p1]
  have "concat cs2 = toString_base64 (cbc_message bc (Buffer_from_base64 key)
      (Buffer_from_base64 ivv) (ascii_bytes (toString_base64 D)))"
    using p2 enc by (simp add: utf8_decode_ascii)
  note dec = nativeDecryptStream_value [OF ok k iv e2 this a2, of kdf]
  show ?thesis using enc dec by simp
qed

lemma stream_round_trip_mock:
  assumes ok: "bc_ok bc"
    and k: "length (Buffer_from_base64 key) = 32" and iv: "length (Buffer_from_base64 ivv) = 16"
    and b: "\<forall>n. b2 = Some n \<longrightarrow> 4 dvd n"
  shows "promise (nativeEncryptStream (QuickCrypto_of bc kdf) key ivv (MockReadStream D)
            MockWriteStream b1) = Resolved
     \<and> getBuffer (sink (nativeEncryptStream (QuickCrypto_of bc kdf) key ivv (MockReadStream D)
            MockWriteStream b1))
         = ascii_bytes (toString_base64 (cbc_message bc (Buffer_from_base64 key)
             (Buffer_from_base64 ivv) (ascii_bytes (toString_base64 D))))
     \<and> promise (nativeDecryptStream (QuickCrypto_of bc kdf) key ivv
            (MockReadStream (getBuffer (sink (nativeEncryptStream (QuickCrypto_of bc kdf) key ivv
               (MockReadStream D) MockWriteStream b1))))
            MockWriteStream b2) = Resolved
     \<and> getBuffer (sink (nativeDecryptStream (QuickCrypto_of bc kdf) key ivv
            (MockReadStream (getBuffer (sink (nativeEncryptStream (QuickCrypto_of bc kdf) key ivv
               (MockReadStream D) MockWriteStream b1))))
            MockWriteStream b2)) = D"
proof -
  define E where "E = getBuffer (sink (nativeEncryptStream (QuickCrypto_of bc kdf) key ivv
      (MockReadStream D) MockWriteStream b1))"
  obtain cs1 where e1: "rs_open (MockReadStream D) Base64
        (config_bufferSize b1 (rs_bufferSize (MockReadStream D))) = map OnData cs1 @ [OnEnd]"
    and p1: "concat cs1 = toString_base64 D"
    using MockReadStream_base64_pieces by blast
  have "ascii (concat cs1)" by (simp add: p1)
  then have a1: "list_all ascii cs1" by (simp add: ascii_concat)
  note enc = nativeEncryptStream_value [OF k iv e1 a1, of bc kdf, unfolded p1, folded E_def]
  have "utf8_decode E = toString_base64 (cbc_message bc (Buffer_from_base64 key)
      (Buffer_from_base64 ivv) (ascii_bytes (toString_base64 D)))"
    using enc by (simp add: utf8_decode_ascii)
  then have "4 dvd length (utf8_decode E)"
    by (simp add: length_toString_base64)
  from MockReadStream_text_pieces [OF b this]
  obtain cs2 where e2: "rs_open (MockReadStream E) Utf8
        (config_bufferSize b2 (rs_bufferSize (MockReadStream E))) = map OnData cs2 @ [OnEnd]"
    and p2: "concat cs2 = utf8_decode E" and a2: "list_all (\<lambda>c. 4 dvd length c) cs2"
    by blast
  show ?thesis
    using stream_round_trip_pieces [OF ok k iv e1 p1 e2 p2 [unfolded E_def] a2]
    unfolding E_def by blast
qed

text \<open>
  C2, as amended. Take any plaintext, a key whose base64 decoding is 32 bytes, an ivv whose
  base64 decoding is 16 bytes, any two buffer sizes \<open>b1\<close> and \<open>b2\<close>, and the sinks of the
  repository's test, which turn each write into bytes by the sink's encoding and append
  them. If the encryption source, read as base64 with \<open>b1\<close>, delivers successive pieces of
  the base64 text of the whole plaintext and then the end, \<^verbatim>\<open>nativeEncryptStream\<close>
  resolves and leaves in its sink a ciphertext that does not depend on how the pieces were
  cut; and if the decryption source, read as UTF-8 text with \<open>b2\<close>, delivers that sink's
  contents in pieces whose lengths are multiples of 4 and then the end,
  \<^verbatim>\<open>nativeDecryptStream\<close> resolves and leaves in its sink exactly the plaintext. The
  test's source meets the first condition for every \<open>b1\<close> and the second whenever \<open>b2\<close>
  is omitted or a multiple of 4 (zero counting as omitted). (What is assumed of the block
  cipher is that decryption undoes encryption on a block.)
\<close>

theorem stream_round_trip:
  assumes "bc_ok bc"
    and "length (Buffer_from_base64 key) = 32" and "length (Buffer_from_base64 ivv) = 16"
  shows "(\<forall>cs1 cs2.
        rs_open inS1 Base64 (config_bufferSize b1 (rs_bufferSize inS1)) = map OnData cs1 @ [OnEnd]
      \<and> concat cs1 = toString_base64 D
      \<and> rs_open inS2 Utf8 (config_bufferSize b2 (rs_bufferSize inS2)) = map OnData cs2 @ [OnEnd]
      \<and> concat cs2 = utf8_decode (getBuffer (sink
           (nativeEncryptStream (QuickCrypto_of bc kdf) key ivv inS1 MockWriteStream b1)))
      \<and> list_all (\<lambda>c. 4 dvd length c) cs2
      \<longrightarrow> promise (nativeEncryptStream (QuickCrypto_of bc kdf) key ivv inS1 MockWriteStream b1)
            = Resolved
        \<and> getBuffer (sink (nativeEncryptStream (QuickCrypto_of bc kdf) key ivv inS1
             MockWriteStream b1))
            = ascii_bytes (toString_base64 (cbc_message bc (Buffer_from_base64 key)
                (Buffer_from_base64 ivv) (ascii_bytes (toString_base64 D))))
        \<and> promise (nativeDecryptStream (QuickCrypto_of bc kdf) key ivv inS2 MockWriteStream b2)
            = Resolved
        \<and> getBuffer (sink (nativeDecryptStream (QuickCrypto_of bc kdf) key ivv inS2
             MockWriteStream b2)) = D)
   \<and> ((\<forall>n. b2 = Some n \<longrightarrow> 4 dvd n)
      \<longrightarrow> promise (nativeEncryptStream (QuickCrypto_of bc kdf) key ivv (MockReadStream D)
            MockWriteStream b1) = Resolved
        \<and> getBuffer (sink (nativeEncryptStream (QuickCrypto_of bc kdf) key ivv (MockReadStream D)
            MockWriteStream b1))
            = ascii_bytes (toString_base64 (cbc_message bc (Buffer_from_base64 key)
                (Buffer_from_base64 ivv) (ascii_bytes (toString_base64 D))))
        \<and> promise (nativeDecryptStream (QuickCrypto_of bc kdf) key ivv
            (MockReadStream (getBuffer (sink (nativeEncryptStream (QuickCrypto_of bc kdf) key ivv
               (MockReadStream D) MockWriteStream b1))))
            MockWriteStream b2) = Resolved
        \<and> getBuffer (sink (nativeDecryptStream (QuickCrypto_of bc kdf) key ivv
            (MockReadStream (getBuffer (sink (nativeEncryptStream (QuickCrypto_of bc kdf) key ivv
               (MockReadStream D) MockWriteStream b1))))
            MockWriteStream b2)) = D)"
proof (intro conjI allI impI)
  fix cs1 cs2
  assume "rs_open inS1 Base64 (config_bufferSize b1 (rs_bufferSize inS1)) = map OnData cs1 @ [OnEnd]
      \<and> concat cs1 = toString_base64 D
      \<and> rs_open inS2 Utf8 (config_bufferSize b2 (rs_bufferSize inS2)) = map OnData cs2 @ [OnEnd]
      \<and> concat cs2 = utf8_decode (getBuffer (sink
           (nativeEncryptStream (QuickCrypto_of bc kdf) key ivv inS1 MockWriteStream b1)))
      \<and> list_all (\<lambda>c. 4 dvd length c) cs2"
  then have h: "rs_open inS1 Base64 (config_bufferSize b1 (rs_bufferSize inS1))
        = map OnData cs1 @ [OnEnd]"
    "concat cs1 = toString_base64 D"
    "rs_open inS2 Utf8 (config_bufferSize b2 (rs_bufferSize inS2)) = map OnData cs2 @ [OnEnd]"
    "concat cs2 = utf8_decode (getBuffer (sink
           (nativeEncryptStream (QuickCrypto_of bc kdf) key ivv inS1 MockWriteStream b1)))"
    "list_all (\<lambda>c. 4 dvd length c) cs2"
    by simp_all
  note r = stream_round_trip_pieces [OF assms h]
  show "promise (nativeEncryptStream (QuickCrypto_of bc kdf) key ivv inS1 MockWriteStream b1)
            = Resolved"
    using r by blast
  show "getBuffer (sink (nativeEncryptStream (QuickCrypto_of bc kdf) key ivv inS1
             MockWriteStream b1))
            = ascii_bytes (toString_base64 (cbc_message bc (Buffer_from_base64 key)
                (Buffer_from_base64 ivv) (ascii_bytes (toString_base64 D))))"
    using r by blast
  show "promise (nativeDecryptStream (QuickCrypto_of bc kdf) key ivv inS2 MockWriteStream b2)
            = Resolved"
    using r by blast
  show "getBuffer (sink (nativeDecryptStream (QuickCrypto_of bc kdf) key ivv inS2
             MockWriteStream b2)) = D"
    using r by blast
next
  assume b: "\<forall>n. b2 = Some n \<longrightarrow> 4 dvd n"
  note r = stream_round_trip_mock [OF assms b, of kdf D b1]
  show "promise (nativeEncryptStream (QuickCrypto_of bc kdf) key ivv (MockReadStream D)
            MockWriteStream b1) = Resolved"
    using r by blast
  show "getBuffer (sink (nativeEncryptStream (QuickCrypto_of bc kdf) key ivv (MockReadStream D)
            MockWriteStream b1))
            = ascii_bytes (toString_base64 (cbc_message bc (Buffer_from_base64 key)
                (Buffer_from_base64 ivv) (ascii_bytes (toString_base64 D))))"
    using r by blast
  show "promise (nativeDecryptStream (QuickCrypto_of bc kdf) key ivv
            (MockReadStream (getBuffer (sink (nativeEncryptStream (QuickCrypto_of bc kdf) key ivv
               (MockReadStream D) MockWriteStream b1))))
            MockWriteStream b2) = Resolved"
    using r by blast
  show "getBuffer (sink (nativeDecryptStream (QuickCrypto_of bc kdf) key ivv
            (MockReadStream (getBuffer (sink (nativeEncryptStream (QuickCrypto_of bc kdf) key ivv
               (MockReadStream D) MockWriteStream b1))))
            MockWriteStream b2)) = D"
    using r by blast
qed

lemma cipher_dms:
  "toString_base64 (cbc_message xor_cipher (Buffer_from_base64 key1) (Buffer_from_base64 ivv1)
      (ascii_bytes (toString_base64 [68, 77, 83]))) = js ''U0YwUw0PDQMNDw0LDQ8NEw==''"
  by (simp add: key1_bytes ivv1_bytes cbc_message_def pkcs7_pad_def chunks_step ascii_bytes_def
      xor_cipher_def xor_block_def js_def b64char_def b64pad_def upt_rec[of _ "numeral _"]
      replicate_numeral Let_def)

lemma MockReadStream_one_chunk:
  assumes "ascii s" and "s \<noteq> []" and "length s \<le> n" and "0 < n"
  shows "rs_open (MockReadStream (ascii_bytes s)) Utf8
      (config_bufferSize (Some n) (rs_bufferSize (MockReadStream (ascii_bytes s))))
     = map OnData [s] @ [OnEnd]"
proof -
  have "utf8_decode (ascii_bytes s) = s"
    using assms(1) by (rule utf8_decode_ascii)
  moreover have "chunks n s = [s]"
    using assms(2,3,4) by (simp add: chunks_step)
  ultimately show ?thesis
    using assms(4)
    by (simp add: MockReadStream_def MockReadStream_open_def config_bufferSize_def)
qed

lemma MockReadStream_dms_pieces:
  "rs_open (MockReadStream [68, 77, 83]) Base64
      (config_bufferSize (Some 2048) (rs_bufferSize (MockReadStream [68, 77, 83])))
     = map OnData [js ''RE1T''] @ [OnEnd]"
  "concat [js ''RE1T''] = toString_base64 [68, 77, 83]"
  by (simp_all add: MockReadStream_def MockReadStream_open_def config_bufferSize_def chunks_step
      js_def b64char_def)

theorem stream_round_trip_witness:
  "promise (nativeEncryptStream QC1 key1 ivv1 (MockReadStream [68, 77, 83]) MockWriteStream
      (Some 2048)) = Resolved
   \<and> getBuffer (sink (nativeEncryptStream QC1 key1 ivv1 (MockReadStream [68, 77, 83])
        MockWriteStream (Some 2048))) = ascii_bytes (js ''U0YwUw0PDQMNDw0LDQ8NEw=='')
   \<and> promise (nativeDecryptStream QC1 key1 ivv1
        (MockReadStream (getBuffer (sink (nativeEncryptStream QC1 key1 ivv1
           (MockReadStream [68, 77, 83]) MockWriteStream (Some 2048)))))
        MockWriteStream (Some 4096)) = Resolved
   \<and> getBuffer (sink (nativeDecryptStream QC1 key1 ivv1
        (MockReadStream (getBuffer (sink (nativeEncryptStream QC1 key1 ivv1
           (MockReadStream [68, 77, 83]) MockWriteStream (Some 2048)))))
        MockWriteStream (Some 4096))) = [68, 77, 83]
   \<and> getBuffer (sink (nativeDecryptStream QC1 key1 ivv1
        (MockReadStream (ascii_bytes (js ''U0YwUw0PDQMNDw0LDQ8NEw==''))) MockWriteStream
        (Some 4096))) = [68, 77, 83]"
proof -
  note t = stream_round_trip [OF bc_ok_xor_cipher length_key1 length_ivv1,
      where kdf = zero_kdf and D = "[68, 77, 83]" and ?b1.0 = "Some 2048" and ?b2.0 = "Some 4096"
        and ?inS1.0 = "MockReadStream [68, 77, 83]"
        and ?inS2.0 = "MockReadStream (ascii_bytes (js ''U0YwUw0PDQMNDw0LDQ8NEw==''))",
      folded QC1_def, unfolded cipher_dms]
  have b: "\<forall>n. Some (4096 :: nat) = Some n \<longrightarrow> 4 dvd n"
    by simp
  note m = t [THEN conjunct2, THEN mp, OF b]
  have a: "ascii (js ''U0YwUw0PDQMNDw0LDQ8NEw=='')" "js ''U0YwUw0PDQMNDw0LDQ8NEw=='' \<noteq> []"
    "length (js ''U0YwUw0PDQMNDw0LDQ8NEw=='') \<le> 4096"
    by (simp_all add: js_def)
  have a4: "4 dvd length (js ''U0YwUw0PDQMNDw0LDQ8NEw=='')"
    unfolding cipher_dms [symmetric] by (simp add: length_toString_base64)
  have e2: "rs_open (MockReadStream (ascii_bytes (js ''U0YwUw0PDQMNDw0LDQ8NEw==''))) Utf8
      (config_bufferSize (Some 4096)
         (rs_bufferSize (MockReadStream (ascii_bytes (js ''U0YwUw0PDQMNDw0LDQ8NEw=='')))))
     = map OnData [js ''U0YwUw0PDQMNDw0LDQ8NEw==''] @ [OnEnd]"
    by (rule MockReadStream_one_chunk [OF a(1,2,3)]) simp
  have p2: "concat [js ''U0YwUw0PDQMNDw0LDQ8NEw==''] = utf8_decode (getBuffer (sink
      (nativeEncryptStream QC1 key1 ivv1 (MockReadStream [68, 77, 83]) MockWriteStream
        (Some 2048))))"
    using m a(1) by (simp add: utf8_decode_ascii)
  have g: "promise (nativeEncryptStream QC1 key1 ivv1 (MockReadStream [68, 77, 83])
          MockWriteStream (Some 2048)) = Resolved
      \<and> getBuffer (sink (nativeEncryptStream QC1 key1 ivv1 (MockReadStream [68, 77, 83])
          MockWriteStream (Some 2048))) = ascii_bytes (js ''U0YwUw0PDQMNDw0LDQ8NEw=='')
      \<and> promise (nativeDecryptStream QC1 key1 ivv1
          (MockReadStream (ascii_bytes (js ''U0YwUw0PDQMNDw0LDQ8NEw==''))) MockWriteStream
          (Some 4096)) = Resolved
      \<and> getBuffer (sink (nativeDecryptStream QC1 key1 ivv1
          (MockReadStream (ascii_bytes (js ''U0YwUw0PDQMNDw0LDQ8NEw==''))) MockWriteStream
          (Some 4096))) = [68, 77, 83]"
    by (rule t [THEN conjunct1, rule_format,
          of "[js ''RE1T'']" "[js ''U0YwUw0PDQMNDw0LDQ8NEw=='']"])
       (use MockReadStream_dms_pieces e2 p2 a4 in simp)
  show ?thesis using m g by simp
qed

subsection \<open>Where the round trip breaks\<close>

lemma short_update:
  assumes "\<not> cx_encrypting cx" and "\<not> cx_finalized cx"
    and "getDecoder (cx_decoder cx) Utf8 = Inr (Utf8Decoder Idle)"
    and "length (cx_buf cx) + length (Buffer_from_base64 c) < 16"
  shows "ossl_update bc cx c Base64 Utf8
     = Inr ([], cx\<lparr>cx_buf := cx_buf cx @ Buffer_from_base64 c,
                    cx_decoder := Some (Utf8Decoder Idle)\<rparr>)"
  using assms
  by (simp add: ossl_update_def block_update_def input_bytes_def Let_def decoder_write_def)

lemma short_updates:
  assumes "\<not> cx_encrypting cx" and "\<not> cx_finalized cx"
    and "getDecoder (cx_decoder cx) Utf8 = Inr (Utf8Decoder Idle)"
    and "length (cx_buf cx) + sum_list (map (\<lambda>c. length (Buffer_from_base64 c)) cs) < 16"
  shows "\<exists>cx1. updates (QuickCrypto_of bc kdf) Base64 Utf8 cx cs = (map (\<lambda>c. Inr []) cs, cx1)
     \<and> \<not> cx_encrypting cx1 \<and> \<not> cx_finalized cx1
     \<and> length (cx_buf cx1)
         = length (cx_buf cx) + sum_list (map (\<lambda>c. length (Buffer_from_base64 c)) cs)"
  using assms
proof (induction cs arbitrary: cx)
  case Nil
  then show ?case by simp
next
  case (Cons c cs)
  define cx' where "cx' = cx\<lparr>cx_buf := cx_buf cx @ Buffer_from_base64 c,
                    cx_decoder := Some (Utf8Decoder Idle)\<rparr>"
  have u: "ossl_update bc cx c Base64 Utf8 = Inr ([], cx')"
    unfolding cx'_def by (rule short_update) (use Cons.prems in simp_all)
  have "\<exists>cx1. updates (QuickCrypto_of bc kdf) Base64 Utf8 cx' cs = (map (\<lambda>c. Inr []) cs, cx1)
     \<and> \<not> cx_encrypting cx1 \<and> \<not> cx_finalized cx1
     \<and> length (cx_buf cx1)
         = length (cx_buf cx') + sum_list (map (\<lambda>c. length (Buffer_from_base64 c)) cs)"
    by (rule Cons.IH) (use Cons.prems in \<open>simp_all add: cx'_def\<close>)
  then obtain cx1 where
    "updates (QuickCrypto_of bc kdf) Base64 Utf8 cx' cs = (map (\<lambda>c. Inr []) cs, cx1)"
    "\<not> cx_encrypting cx1" "\<not> cx_finalized cx1"
    "length (cx_buf cx1)
       = length (cx_buf cx') + sum_list (map (\<lambda>c. length (Buffer_from_base64 c)) cs)"
    by blast
  then show ?case
    using u by (simp add: cx'_def)
qed

lemma cipher65:
  "toString_base64 (cbc_message xor_cipher (Buffer_from_base64 key1) (Buffer_from_base64 ivv1)
      (ascii_bytes (toString_base64 [65]))) = js ''UFI8Og0PDQMNDw0LDQ8NEw==''"
  by (simp add: key1_bytes ivv1_bytes cbc_message_def pkcs7_pad_def chunks_step ascii_bytes_def
      xor_cipher_def xor_block_def js_def b64char_def b64pad_def upt_rec[of _ "numeral _"]
      replicate_numeral Let_def)

lemma events65:
  "rs_open (MockReadStream (ascii_bytes (js ''UFI8Og0PDQMNDw0LDQ8NEw==''))) Utf8
      (config_bufferSize (Some 5)
         (rs_bufferSize (MockReadStream (ascii_bytes (js ''UFI8Og0PDQMNDw0LDQ8NEw=='')))))
     = map OnData [js ''UFI8O'', js ''g0PDQ'', js ''MNDw0'', js ''LDQ8N'', js ''Ew==''] @ [OnEnd]"
proof -
  have "ascii (js ''UFI8Og0PDQMNDw0LDQ8NEw=='')"
    by (simp add: js_def)
  then have "utf8_decode (ascii_bytes (js ''UFI8Og0PDQMNDw0LDQ8NEw==''))
      = js ''UFI8Og0PDQMNDw0LDQ8NEw==''"
    by (rule utf8_decode_ascii)
  then show ?thesis
    by (simp add: MockReadStream_def MockReadStream_open_def config_bufferSize_def js_def
        chunks_step)
qed

lemma decrypt65:
  "promise (nativeDecryptStream QC1 key1 ivv1
       (MockReadStream (ascii_bytes (js ''UFI8Og0PDQMNDw0LDQ8NEw==''))) MockWriteStream (Some 5))
     = Pending
   \<and> getBuffer (sink (nativeDecryptStream QC1 key1 ivv1
       (MockReadStream (ascii_bytes (js ''UFI8Og0PDQMNDw0LDQ8NEw==''))) MockWriteStream (Some 5)))
     = []"
proof -
  define cs where "cs = [js ''UFI8O'', js ''g0PDQ'', js ''MNDw0'', js ''LDQ8N'', js ''Ew=='']"
  have l: "sum_list (map (\<lambda>c. length (Buffer_from_base64 c)) cs) = 13"
    by (simp add: cs_def js_def Buffer_from_base64_def b64pad_def List.map_filter_def
        unbase64_def)
  have "\<exists>cx1. updates (QuickCrypto_of xor_cipher zero_kdf) Base64 Utf8 (ctx1 False) cs
        = (map (\<lambda>c. Inr []) cs, cx1)
     \<and> \<not> cx_encrypting cx1 \<and> \<not> cx_finalized cx1
     \<and> length (cx_buf cx1)
         = length (cx_buf (ctx1 False))
           + sum_list (map (\<lambda>c. length (Buffer_from_base64 c)) cs)"
    by (rule short_updates) (simp_all add: ctx1_def l)
  then obtain cx1 where us: "updates QC1 Base64 Utf8 (ctx1 False) cs = (map (\<lambda>c. Inr []) cs, cx1)"
    and i: "\<not> cx_encrypting cx1" "\<not> cx_finalized cx1" "length (cx_buf cx1) = 13"
    by (auto simp: QC1_def l ctx1_def)
  have f: "ossl_final xor_cipher cx1 Utf8 = Inl (Error ''wrong final block length'')"
    using i by (simp add: ossl_final_def block_final_def)
  have op: "nativeDecryptStream QC1 key1 ivv1
       (MockReadStream (ascii_bytes (js ''UFI8Og0PDQMNDw0LDQ8NEw==''))) MockWriteStream (Some 5)
    = snd (foldl (decrypt_handle QC1)
       (snd (updates QC1 Base64 Utf8 (ctx1 False) cs),
        \<lparr>source = (MockReadStream (ascii_bytes (js ''UFI8Og0PDQMNDw0LDQ8NEw=='')))
           \<lparr>rs_bufferSize := config_bufferSize (Some 5)
              (rs_bufferSize (MockReadStream (ascii_bytes (js ''UFI8Og0PDQMNDw0LDQ8NEw=='')))),
            rs_encoding := Utf8\<rparr>,
         sink = writes (MockWriteStream\<lparr>ws_encoding := Base64, ws_append := False\<rparr>)
                  (written (fst (updates QC1 Base64 Utf8 (ctx1 False) cs))),
         promise = Pending,
         trace = data_trace Base64 Utf8 cs (fst (updates QC1 Base64 Utf8 (ctx1 False) cs))\<rparr>)
       [OnEnd])"
    by (rule nativeDecryptStream_events [OF QC1_simps(2) create1])
       (simp add: events65 cs_def)
  have w: "ws_data (writes (MockWriteStream\<lparr>ws_encoding := Base64, ws_append := False\<rparr>)
      (written (map (\<lambda>c. Inr []) cs))) = [[], [], [], [], []]"
    by (simp add: cs_def MockWriteStream_def MockWriteStream_write_def)
  show ?thesis
    unfolding op us
    using f w by (simp add: decrypt_handle_def decrypt_onEnd_def getBuffer_def)
qed

lemma cipher_chunkwise:
  "toString_base64 (cbc_message xor_cipher (Buffer_from_base64 key1) (Buffer_from_base64 ivv1)
      (ascii_bytes (concat [toString_base64 [65], toString_base64 [66]])))
     = js ''UFI8OlBkPDIJCwkPCQsJFw==''"
  by (simp add: key1_bytes ivv1_bytes cbc_message_def pkcs7_pad_def chunks_step ascii_bytes_def
      xor_cipher_def xor_block_def js_def b64char_def b64pad_def upt_rec[of _ "numeral _"]
      replicate_numeral Let_def)

lemma update_chunkwise:
  "ossl_update xor_cipher (ctx1 False) (js ''UFI8OlBkPDIJCwkPCQsJFw=='') Base64 Utf8
     = Inr ([], (ctx1 False)\<lparr>cx_buf := Buffer_from_base64 (js ''UFI8OlBkPDIJCwkPCQsJFw==''),
                              cx_decoder := Some (Utf8Decoder Idle)\<rparr>)"
  by (simp add: ossl_update_def ctx1_def block_update_def input_bytes_def
      decoder_write_def js_def Buffer_from_base64_def b64pad_def List.map_filter_def unbase64_def
      Let_def)

lemma final_chunkwise:
  "ossl_final xor_cipher
     ((ctx1 False)\<lparr>cx_buf := Buffer_from_base64 (js ''UFI8OlBkPDIJCwkPCQsJFw==''),
                    cx_decoder := Some (Utf8Decoder Idle)\<rparr>) Utf8
     = Inr (js ''QQ==Qg=='',
            (ctx1 False)\<lparr>cx_buf := [], cx_decoder := Some (Utf8Decoder Idle),
                          cx_finalized := True\<rparr>)"
  by (simp add: ossl_final_def ctx1_def block_final_def pkcs7_unpad_def xor_cipher_def
      xor_block_def decoder_end_def decoder_write_def js_def
      Buffer_from_base64_def b64pad_def List.map_filter_def unbase64_def
      utf8_step_def utf8_start_def utf8_end_def upt_rec[of _ "numeral _"] replicate_numeral)

lemma decrypt_chunkwise:
  "promise (nativeDecryptStream QC1 key1 ivv1
       (MockReadStream (ascii_bytes (js ''UFI8OlBkPDIJCwkPCQsJFw==''))) MockWriteStream
       (Some 4096)) = Resolved
   \<and> getBuffer (sink (nativeDecryptStream QC1 key1 ivv1
       (MockReadStream (ascii_bytes (js ''UFI8OlBkPDIJCwkPCQsJFw==''))) MockWriteStream
       (Some 4096))) = [65]"
proof -
  define t where "t = js ''UFI8OlBkPDIJCwkPCQsJFw==''"
  define cx2 where "cx2 = (ctx1 False)\<lparr>cx_buf := [], cx_decoder := Some (Utf8Decoder Idle),
                          cx_finalized := True\<rparr>"
  have a: "ascii t" "t \<noteq> []" "length t \<le> 4096"
    by (simp_all add: t_def js_def)
  have ev: "rs_open (MockReadStream (ascii_bytes t)) Utf8
      (config_bufferSize (Some 4096) (rs_bufferSize (MockReadStream (ascii_bytes t))))
     = map OnData [t] @ [OnEnd]"
    by (rule MockReadStream_one_chunk [OF a]) simp
  have us: "updates QC1 Base64 Utf8 (ctx1 False) [t]
      = ([Inr []], (ctx1 False)\<lparr>cx_buf := Buffer_from_base64 t,
                              cx_decoder := Some (Utf8Decoder Idle)\<rparr>)"
    by (simp add: t_def update_chunkwise)
  have f: "final QC1 (snd (updates QC1 Base64 Utf8 (ctx1 False) [t])) Utf8
      = Inr (js ''QQ==Qg=='', cx2)"
    unfolding us by (simp add: t_def cx2_def final_chunkwise)
  have n: "js ''QQ==Qg=='' \<noteq> []" by (simp add: js_def)
  have w: "js ''QQ==Qg=='' \<noteq> [] \<longrightarrow>
        write_resolves (writes (MockWriteStream\<lparr>ws_encoding := Base64, ws_append := False\<rparr>)
          (written (fst (updates QC1 Base64 Utf8 (ctx1 False) [t])))) (js ''QQ==Qg=='')"
    by simp
  have cl: "close_resolves (writes (MockWriteStream\<lparr>ws_encoding := Base64, ws_append := False\<rparr>)
          (written (fst (updates QC1 Base64 Utf8 (ctx1 False) [t]))
             @ (if js ''QQ==Qg=='' \<noteq> [] then [js ''QQ==Qg==''] else [])))"
    by simp
  have p: "promise (nativeDecryptStream QC1 key1 ivv1 (MockReadStream (ascii_bytes t))
      MockWriteStream (Some 4096)) = Resolved"
    using decrypt_end_op [OF QC1_simps(2) create1 ev f w cl] by simp
  have d: "Buffer_from_base64 (js ''QQ==Qg=='') = [65]"
    by (simp add: js_def Buffer_from_base64_def b64pad_def List.map_filter_def unbase64_def)
  have "ws_data (writes (MockWriteStream\<lparr>ws_encoding := Base64, ws_append := False\<rparr>)
      [[], js ''QQ==Qg=='']) = [] @ map Buffer_from_base64 [[], js ''QQ==Qg=='']"
    by (subst mock_writes_base64) (simp_all add: MockWriteStream_def)
  then have "getBuffer (sink (nativeDecryptStream QC1 key1 ivv1 (MockReadStream (ascii_bytes t))
      MockWriteStream (Some 4096))) = [65]"
    unfolding decrypt_end_sink [OF QC1_simps(2) create1 ev f w cl] us
    using n d by (simp add: getBuffer_def mock_closed MockWriteStream_def del: writes.simps)
  then show ?thesis using p by (simp add: t_def)
qed

text \<open>
  C2 as stated fails in three ways. For a decryption buffer size that is not a multiple of
  4, each chunk of the ciphertext's base64 text is decoded on its own: with chunks of 5
  characters the decipher receives 13 bytes instead of 16, its finalization throws,
  nothing is written and the promise stays pending. For a source that does not cut one
  base64 text into pieces but encodes each of its chunks on its own, the plaintext
  \<^verbatim>\<open>AB\<close> arrives as \<^verbatim>\<open>QQ==\<close> and \<^verbatim>\<open>Qg==\<close>; both operations resolve, and the
  decrypted sink holds \<^verbatim>\<open>A\<close> alone. And a key of 16 bytes is refused by
  \<^verbatim>\<open>createCipheriv\<close>: the encryption is rejected.
\<close>

theorem stream_round_trip_counterexample:
  "promise (nativeDecryptStream QC1 key1 ivv1
       (MockReadStream (getBuffer (sink (nativeEncryptStream QC1 key1 ivv1
          (MockReadStream [65]) MockWriteStream None))))
       MockWriteStream (Some 5)) = Pending
   \<and> getBuffer (sink (nativeDecryptStream QC1 key1 ivv1
       (MockReadStream (getBuffer (sink (nativeEncryptStream QC1 key1 ivv1
          (MockReadStream [65]) MockWriteStream None))))
       MockWriteStream (Some 5))) = []
   \<and> utf8_decode [65, 66] = js ''AB''
   \<and> rs_open ChunkwiseReadStream Utf8 None = [OnData (js ''AB''), OnEnd]
   \<and> promise (nativeEncryptStream QC1 key1 ivv1 ChunkwiseReadStream MockWriteStream None)
       = Resolved
   \<and> promise (nativeDecryptStream QC1 key1 ivv1
       (MockReadStream (getBuffer (sink (nativeEncryptStream QC1 key1 ivv1
          ChunkwiseReadStream MockWriteStream None))))
       MockWriteStream (Some 4096)) = Resolved
   \<and> getBuffer (sink (nativeDecryptStream QC1 key1 ivv1
       (MockReadStream (getBuffer (sink (nativeEncryptStream QC1 key1 ivv1
          ChunkwiseReadStream MockWriteStream None))))
       MockWriteStream (Some 4096))) = [65]
   \<and> promise (nativeEncryptStream QC1 ivv1 ivv1 (MockReadStream [65]) MockWriteStream None)
       = Rejected (RangeError ''Invalid key length'')"
proof -
  have b: "\<forall>n. (None :: nat option) = Some n \<longrightarrow> 4 dvd n" by simp
  have 1: "getBuffer (sink (nativeEncryptStream QC1 key1 ivv1 (MockReadStream [65])
      MockWriteStream None)) = ascii_bytes (js ''UFI8Og0PDQMNDw0LDQ8NEw=='')"
    using stream_round_trip_mock [OF bc_ok_xor_cipher length_key1 length_ivv1 b,
        of zero_kdf "[65]" None]
    by (simp only: QC1_def cipher65)
  have u: "utf8_decode [65, 66] = js ''AB''"
    by (simp add: js_def utf8_decode_def utf8_step_def utf8_start_def utf8_end_def utf8_units_def)
  have ev: "rs_open ChunkwiseReadStream Base64
      (config_bufferSize None (rs_bufferSize ChunkwiseReadStream))
     = map OnData [toString_base64 [65], toString_base64 [66]] @ [OnEnd]"
    by (simp add: ChunkwiseReadStream_def)
  have "list_all ascii [toString_base64 [65], toString_base64 [66]]"
    by (simp del: toString_base64.simps)
  note e = nativeEncryptStream_value [OF length_key1 length_ivv1 ev this, of xor_cipher zero_kdf,
      folded QC1_def, unfolded cipher_chunkwise]
  have 2: "promise (nativeEncryptStream QC1 ivv1 ivv1 (MockReadStream [65])
      MockWriteStream None) = Rejected (RangeError ''Invalid key length'')"
    by (simp add: nativeEncryptStream_def encrypt_init_def ossl_create_def alg_def)
  have 3: "rs_open ChunkwiseReadStream Utf8 None = [OnData (js ''AB''), OnEnd]"
    by (simp add: ChunkwiseReadStream_def u)
  show ?thesis
    using decrypt65 decrypt_chunkwise e 2 3 u by (simp add: 1)
qed

end
